theory Spec2Isabelle
  imports Main "HOL-Library.Sublist"
begin

section \<open>Strings\<close>

text \<open>
  A JavaScript string is modelled by the bytes of its UTF-8 encoding (\<open>string\<close>, a list
  of 8-bit characters). Every character the code below inspects (\<open>/\<close>, \<open>.\<close>, \<open>%\<close>,
  \<open>?\<close>, \<open>#\<close>, hexadecimal digits) is ASCII, and an ASCII byte never occurs inside a
  multi-byte UTF-8 sequence, so searching, splitting and replacing on these characters
  acts on the bytes exactly as it acts on the code units.
\<close>

definition startsWith :: "string \<Rightarrow> string \<Rightarrow> bool" where
  "startsWith s p = (take (length p) s = p)"

definition endsWith :: "string \<Rightarrow> string \<Rightarrow> bool" where
  "endsWith s p = (drop (length s - length p) s = p \<and> length p \<le> length s)"

fun includesStr :: "string \<Rightarrow> string \<Rightarrow> bool" where
  "includesStr [] p = (p = [])"
| "includesStr (c # cs) p = (startsWith (c # cs) p \<or> includesStr cs p)"

fun splitOn :: "char \<Rightarrow> string \<Rightarrow> string list" where
  "splitOn d [] = [[]]"
| "splitOn d (c # cs) =
     (if c = d then [] # splitOn d cs
      else (case splitOn d cs of [] \<Rightarrow> [[c]] | s # ss \<Rightarrow> (c # s) # ss))"

fun joinWith :: "char \<Rightarrow> string list \<Rightarrow> string" where
  "joinWith d [] = []"
| "joinWith d [s] = s"
| "joinWith d (s # t # ss) = s @ d # joinWith d (t # ss)"

section \<open>The path functions of the runtime (posix)\<close>

text \<open>
  \<open>path.resolve\<close>, \<open>path.relative\<close> and \<open>path.basename\<close> belong to the runtime, not
  to the repository. They are modelled by what they compute on path segments:
  empty segments and \<open>.\<close> are dropped, \<open>..\<close> removes the segment before it (and is
  dropped at the filesystem root). A segment is \<open>..\<close> only when it is exactly two dots.
\<close>

fun normalizeSegments :: "string list \<Rightarrow> string list \<Rightarrow> string list" where
  "normalizeSegments acc [] = rev acc"
| "normalizeSegments acc (s # ss) =
     (if s = [] \<or> s = ''.'' then normalizeSegments acc ss
      else if s = ''..'' then
        (case acc of [] \<Rightarrow> normalizeSegments [] ss | _ # up \<Rightarrow> normalizeSegments up ss)
      else normalizeSegments (s # acc) ss)"

text \<open>
  \<open>path.resolve(...args)\<close> reads its arguments from the right, skipping empty ones and
  prepending each to the path built so far, until one is absolute; when none is, the
  working directory (an absolute path) is prepended. The result is normalised.
\<close>

fun resolveLoop :: "string \<Rightarrow> string list \<Rightarrow> string \<Rightarrow> string" where
  "resolveLoop cwd [] acc = cwd @ CHR ''/'' # acc"
| "resolveLoop cwd (p # ps) acc =
     (if p = [] then resolveLoop cwd ps acc
      else if startsWith p ''/'' then p @ CHR ''/'' # acc
      else resolveLoop cwd ps (p @ CHR ''/'' # acc))"

definition resolveSegments :: "string \<Rightarrow> string list \<Rightarrow> string list" where
  "resolveSegments cwd args =
     normalizeSegments [] (splitOn CHR ''/'' (resolveLoop cwd (rev args) []))"

definition resolve :: "string \<Rightarrow> string list \<Rightarrow> string" where
  "resolve cwd args = CHR ''/'' # joinWith CHR ''/'' (resolveSegments cwd args)"

fun dropCommon :: "string list \<Rightarrow> string list \<Rightarrow> string list \<times> string list" where
  "dropCommon (a # as) (b # bs) = (if a = b then dropCommon as bs else (a # as, b # bs))"
| "dropCommon as bs = (as, bs)"

text \<open>
  \<open>path.relative(from, to)\<close> resolves both paths, drops their common leading
  segments, and answers one \<open>..\<close> for each segment left of \<open>from\<close> followed by the
  segments left of \<open>to\<close>.
\<close>

definition relative :: "string \<Rightarrow> string \<Rightarrow> string \<Rightarrow> string" where
  "relative cwd from to =
     (case dropCommon (resolveSegments cwd [from]) (resolveSegments cwd [to]) of
        (fs, ts) \<Rightarrow> joinWith CHR ''/'' (map (\<lambda>_. ''..'') fs @ ts))"

text \<open>\<open>path.basename(p)\<close>: the last non-empty segment, the empty string when there is none.\<close>

definition basename :: "string \<Rightarrow> string" where
  "basename p =
     (case rev (filter (\<lambda>s. s \<noteq> []) (splitOn CHR ''/'' p)) of [] \<Rightarrow> [] | s # _ \<Rightarrow> s)"

text \<open>
  \<open>path.normalize(p)\<close> for an absolute path: the normalised segments, with the trailing
  separator of \<open>p\<close> kept.
\<close>

definition normalizePath :: "string \<Rightarrow> string" where
  "normalizePath p =
     (let segs = normalizeSegments [] (splitOn CHR ''/'' p) in
      if segs = [] then ''/''
      else CHR ''/'' # joinWith CHR ''/'' segs @ (if endsWith p ''/'' then ''/'' else []))"

section \<open>decodeURIComponent\<close>

datatype error = URIError | Error string

definition hexval :: "char \<Rightarrow> nat option" where
  "hexval c =
     (let n = (of_char c :: nat) in
      if 48 \<le> n \<and> n \<le> 57 then Some (n - 48)
      else if 65 \<le> n \<and> n \<le> 70 then Some (n - 55)
      else if 97 \<le> n \<and> n \<le> 102 then Some (n - 87)
      else None)"

definition hexbyte :: "char \<Rightarrow> char \<Rightarrow> nat option" where
  "hexbyte x y =
     (case hexval x of None \<Rightarrow> None
      | Some h \<Rightarrow> (case hexval y of None \<Rightarrow> None | Some l \<Rightarrow> Some (16 * h + l)))"

text \<open>The number of bytes a UTF-8 sequence has, read from the leading one bits of its first byte.\<close>

definition leadingOnes :: "nat \<Rightarrow> nat" where
  "leadingOnes b =
     (if b < 128 then 0 else if b < 192 then 1 else if b < 224 then 2
      else if b < 240 then 3 else if b < 248 then 4 else 5)"

definition cont :: "nat \<Rightarrow> bool" where
  "cont b = (128 \<le> b \<and> b \<le> 191)"

fun validUtf8 :: "nat list \<Rightarrow> bool" where
  "validUtf8 [b0, b1] = (194 \<le> b0 \<and> b0 \<le> 223 \<and> cont b1)"
| "validUtf8 [b0, b1, b2] =
     (((b0 = 224 \<and> 160 \<le> b1 \<and> b1 \<le> 191) \<or> (225 \<le> b0 \<and> b0 \<le> 236 \<and> cont b1)
        \<or> (b0 = 237 \<and> 128 \<le> b1 \<and> b1 \<le> 159) \<or> (238 \<le> b0 \<and> b0 \<le> 239 \<and> cont b1))
      \<and> cont b2)"
| "validUtf8 [b0, b1, b2, b3] =
     (((b0 = 240 \<and> 144 \<le> b1 \<and> b1 \<le> 191) \<or> (241 \<le> b0 \<and> b0 \<le> 243 \<and> cont b1)
        \<or> (b0 = 244 \<and> 128 \<le> b1 \<and> b1 \<le> 143))
      \<and> cont b2 \<and> cont b3)"
| "validUtf8 _ = False"

text \<open>
  The Decode operation of ECMAScript with an empty reserved set. A character other than
  \<open>%\<close> is copied. \<open>%XY\<close> below 0x80 gives that character; a first byte announcing
  \<open>n\<close> bytes must be followed by \<open>n - 1\<close> further escapes, and the bytes together must
  be the UTF-8 encoding of a code point (they then are the bytes of the decoded
  character). Anything else throws URIError.
\<close>

fun decodeFrom :: "string \<Rightarrow> error + string"
  and contBytes :: "nat list \<Rightarrow> nat \<Rightarrow> string \<Rightarrow> error + string" where
  "decodeFrom [] = Inr []"
| "decodeFrom (c # cs) =
     (if c \<noteq> CHR ''%'' then
        (case decodeFrom cs of Inl e \<Rightarrow> Inl e | Inr r \<Rightarrow> Inr (c # r))
      else
        (case cs of
           x # y # rest \<Rightarrow>
             (case hexbyte x y of
                None \<Rightarrow> Inl URIError
              | Some b \<Rightarrow>
                  if leadingOnes b = 0 then
                    (case decodeFrom rest of Inl e \<Rightarrow> Inl e | Inr r \<Rightarrow> Inr (char_of b # r))
                  else if leadingOnes b = 1 \<or> leadingOnes b > 4 then Inl URIError
                  else contBytes [b] (leadingOnes b - 1) rest)
         | _ \<Rightarrow> Inl URIError))"
| "contBytes octets 0 rest =
     (if validUtf8 octets then
        (case decodeFrom rest of Inl e \<Rightarrow> Inl e | Inr r \<Rightarrow> Inr (map char_of octets @ r))
      else Inl URIError)"
| "contBytes octets (Suc j) (p # x # y # rest) =
     (if p \<noteq> CHR ''%'' then Inl URIError
      else (case hexbyte x y of
              None \<Rightarrow> Inl URIError
            | Some b \<Rightarrow> contBytes (octets @ [b]) j rest))"
| "contBytes octets (Suc j) _ = Inl URIError"

definition decodeURIComponent :: "string \<Rightarrow> error + string" where
  "decodeURIComponent s = decodeFrom s"

section \<open>The path codec (utils/convertors.ts)\<close>

definition dotdotEncoding :: string where
  "dotdotEncoding = ''...''"

text \<open>\<open>s.replace(/\.\./g, dotdotEncoding)\<close>: matches are found left to right and do not overlap.\<close>

fun replaceDotDot :: "string \<Rightarrow> string" where
  "replaceDotDot (a # b # cs) =
     (if a = CHR ''.'' \<and> b = CHR ''.'' then dotdotEncoding @ replaceDotDot cs
      else a # replaceDotDot (b # cs))"
| "replaceDotDot cs = cs"

text \<open>\<open>s.replace(/\.\.\./g, '..')\<close>.\<close>

fun replaceEncoding :: "string \<Rightarrow> string" where
  "replaceEncoding (a # b # c # cs) =
     (if a = CHR ''.'' \<and> b = CHR ''.'' \<and> c = CHR ''.'' then ''..'' @ replaceEncoding cs
      else a # replaceEncoding (b # c # cs))"
| "replaceEncoding cs = cs"

text \<open>
  Modelled from the spec: \<open>cleanUrl\<close> of \<open>utils/utils.ts\<close>, which is not among the
  sources; the spec says the decoder strips the query and the hash.
\<close>

definition cleanUrl :: "string \<Rightarrow> string" where
  "cleanUrl url = takeWhile (\<lambda>c. c \<noteq> CHR ''?'') (takeWhile (\<lambda>c. c \<noteq> CHR ''#'') url)"

definition importPathToFile :: "string \<Rightarrow> string \<Rightarrow> string \<Rightarrow> error + string" where
  "importPathToFile cwd root request =
     (case decodeURIComponent request of
        Inl e \<Rightarrow> Inl e
      | Inr r1 \<Rightarrow>
          (let r2 = cleanUrl r1;
               r3 = (if startsWith r2 ''/'' then drop 1 r2 else r2);
               r4 = resolve cwd [root, r3]
           in Inr (replaceEncoding r4)))"

definition fileToImportPath :: "string \<Rightarrow> string \<Rightarrow> string \<Rightarrow> string" where
  "fileToImportPath cwd root filePath =
     (let f1 = resolve cwd [root, filePath];
          f2 = relative cwd root f1;
          f3 = replaceDotDot f2
      in CHR ''/'' # f3)"

section \<open>The module request handler (pluginsMiddleware)\<close>

record request =
  path :: string
  accept :: "string option"
  secFetchDest :: "string option"

record loadResult =
  contents :: "string option"
  loader :: string

record transformResult =
  contents_t :: string
  map_t :: "string option"

text \<open>
  The plugin executor and the source map printer are collaborators that are not among
  the sources: they are parameters of the handler. A call may throw (\<open>Inl\<close>) or answer
  nothing (\<open>None\<close>).
\<close>

record pluginsExecutor =
  load :: "string \<Rightarrow> error + loadResult option"
  transform :: "string \<Rightarrow> string \<Rightarrow> string \<Rightarrow> error + transformResult option"
  genSourceMapString :: "string \<Rightarrow> string"

text \<open>What the handler does to its collaborators, in order.\<close>

datatype effect = WatcherAdd string | Load string | Transform string

datatype outcome = Next | Throw error | Body string string

definition invalidSpecifier :: "string \<Rightarrow> error" where
  "invalidSpecifier p =
     Error (''All import paths should have been rewritten to absolute paths (start with /)''
            @ [CHR 0x0A] @ '' make sure import paths for '' @ [CHR 0x27] @ p @ [CHR 0x27]
            @ '' are statically analyzable'')"

definition moduleAccept :: "request \<Rightarrow> bool" where
  "moduleAccept req =
     (accept req = Some ''*/*'' \<or> secFetchDest req = Some ''script''
      \<or> endsWith (path req) ''.map'')"

definition pluginsMiddleware ::
  "string \<Rightarrow> string \<Rightarrow> pluginsExecutor \<Rightarrow> request \<Rightarrow> outcome \<times> effect list" where
  "pluginsMiddleware cwd root ex req =
     (if path req = ''/'' then (Next, [])
      else if \<not> moduleAccept req then (Next, [])
      else if startsWith (path req) ''.'' then (Throw (invalidSpecifier (path req)), [])
      else
        (case importPathToFile cwd root (path req) of
           Inl e \<Rightarrow> (Throw e, [])
         | Inr filePath \<Rightarrow>
             (let w = (if startsWith (path req) (CHR ''/'' # dotdotEncoding)
                          \<and> \<not> includesStr filePath ''node_modules''
                       then [WatcherAdd filePath] else [])
              in case load ex filePath of
                   Inl e \<Rightarrow> (Throw e, w @ [Load filePath])
                 | Inr None \<Rightarrow> (Next, w @ [Load filePath])
                 | Inr (Some loaded) \<Rightarrow>
                     (case contents loaded of
                        None \<Rightarrow> (Next, w @ [Load filePath])
                      | Some c \<Rightarrow>
                          (case transform ex filePath (loader loaded) c of
                             Inl e \<Rightarrow> (Throw e, w @ [Load filePath, Transform filePath])
                           | Inr None \<Rightarrow> (Next, w @ [Load filePath, Transform filePath])
                           | Inr (Some transformed) \<Rightarrow>
                               (let sourcemap =
                                      (case map_t transformed of
                                         Some m \<Rightarrow> genSourceMapString ex m
                                       | None \<Rightarrow> [])
                                in (Body (contents_t transformed @ sourcemap) ''js'',
                                    w @ [Load filePath, Transform filePath])))))))"

section \<open>The HMR channel (hmrMiddleware)\<close>

record node =
  importers :: "string list"
  hasHmrAccept :: bool
  isHmrEnabled :: bool

type_synonym graph = "string \<rightharpoonup> node"

text \<open>
  Modelled from the spec: \<open>Graph.ensureEntry\<close> of \<open>graph.ts\<close>, which is not among the
  sources; the spec says nodes are created lazily by an idempotent ensure-node
  operation and never duplicated. The caller holds a reference to the node, so the
  two assignments of the message handler update the node stored in the graph.
\<close>

definition newNode :: node where
  "newNode = \<lparr>importers = [], hasHmrAccept = False, isHmrEnabled = False\<rparr>"

definition ensureEntry :: "graph \<Rightarrow> string \<Rightarrow> node \<times> graph" where
  "ensureEntry g p = (case g p of Some n \<Rightarrow> (n, g) | None \<Rightarrow> (newNode, g(p \<mapsto> newNode)))"

text \<open>
  A message from a client, after \<open>JSON.parse\<close>: its \<open>type\<close> and \<open>path\<close> members, or
  text that is not JSON.
\<close>

datatype clientData = Malformed | Payload string string

text \<open>
  The objects that emit events: the socket server \<open>wss\<close> and one socket per connected
  client. The two callbacks of the source are the listener of \<open>connection\<close> (line 536)
  and the listener of \<open>message\<close> (line 539).
\<close>

datatype emitter = Wss | Socket nat

datatype listener = OnConnection | OnMessage

datatype event = Connection nat | Message clientData

datatype jsError = SyntaxError | Thrown error

record hmr =
  listeners :: "(emitter \<times> string \<times> listener) list"
  graph :: graph
  sent :: "(nat \<times> string) list"

fun eventName :: "event \<Rightarrow> string" where
  "eventName (Connection _) = ''connection''"
| "eventName (Message _) = ''message''"

definition on :: "emitter \<Rightarrow> string \<Rightarrow> listener \<Rightarrow> hmr \<Rightarrow> hmr" where
  "on e name l st = st\<lparr>listeners := listeners st @ [(e, name, l)]\<rparr>"

text \<open>The body of the listener registered at line 539.\<close>

definition onMessage :: "string \<Rightarrow> string \<Rightarrow> clientData \<Rightarrow> hmr \<Rightarrow> jsError + hmr" where
  "onMessage cwd root d st =
     (case d of
        Malformed \<Rightarrow> Inl SyntaxError
      | Payload type p \<Rightarrow>
          if type = ''hotAccept'' then
            (case importPathToFile cwd root p of
               Inl e \<Rightarrow> Inl (Thrown e)
             | Inr file \<Rightarrow>
                 (case ensureEntry (graph st) file of
                    (entry, g) \<Rightarrow>
                      Inr (st\<lparr>graph :=
                                 g(file \<mapsto> entry\<lparr>hasHmrAccept := True, isHmrEnabled := True\<rparr>)\<rparr>)))
          else Inr st)"

text \<open>\<open>JSON.stringify({ type: 'connected' })\<close>.\<close>

definition connectedMessage :: string where
  "connectedMessage =
     ''{'' @ [CHR 0x22] @ ''type'' @ [CHR 0x22] @ '':'' @ [CHR 0x22] @ ''connected'' @ [CHR 0x22] @ ''}''"

text \<open>The body of the listener registered at line 536: it registers the other on \<open>wss\<close>.\<close>

definition onConnection :: "nat \<Rightarrow> hmr \<Rightarrow> hmr" where
  "onConnection socket st =
     on Wss ''message'' OnMessage
       (st\<lparr>sent := sent st @ [(socket, connectedMessage)]\<rparr>)"

fun runListener :: "string \<Rightarrow> string \<Rightarrow> listener \<Rightarrow> event \<Rightarrow> hmr \<Rightarrow> jsError + hmr" where
  "runListener cwd root OnConnection (Connection socket) st = Inr (onConnection socket st)"
| "runListener cwd root OnMessage (Message d) st = onMessage cwd root d st"
| "runListener cwd root _ _ st = Inr st"

fun runAll :: "string \<Rightarrow> string \<Rightarrow> listener list \<Rightarrow> event \<Rightarrow> hmr \<Rightarrow> jsError + hmr" where
  "runAll cwd root [] ev st = Inr st"
| "runAll cwd root (l # ls) ev st =
     (case runListener cwd root l ev st of
        Inl e \<Rightarrow> Inl e
      | Inr st' \<Rightarrow> runAll cwd root ls ev st')"

text \<open>
  \<open>emitter.emit(name, arg)\<close>: the listeners registered on this emitter under this name
  when the event is emitted are called in the order of their registration.
\<close>

definition emit :: "string \<Rightarrow> string \<Rightarrow> emitter \<Rightarrow> event \<Rightarrow> hmr \<Rightarrow> jsError + hmr" where
  "emit cwd root e ev st =
     runAll cwd root
       (map (\<lambda>(_, _, l). l)
          (filter (\<lambda>(e', name, _). e' = e \<and> name = eventName ev) (listeners st)))
       ev st"

text \<open>
  The state once the middleware has run: \<open>wss.on('connection', ...)\<close> is registered,
  the graph is the one \<open>createApp\<close> made.
\<close>

definition hmrStarted :: "graph \<Rightarrow> hmr" where
  "hmrStarted g = on Wss ''connection'' OnConnection \<lparr>listeners = [], graph = g, sent = []\<rparr>"

text \<open>
  What reaches the server from outside. An upgrade request with the HMR protocol makes
  the source emit \<open>connection\<close> on \<open>wss\<close> (line 531). A frame sent by a connected
  client is delivered by the socket library as a \<open>message\<close> event of that client's
  socket; the library emits no \<open>message\<close> event on the server object.
\<close>

datatype input = Upgrade nat | ClientSends nat clientData

fun deliver :: "string \<Rightarrow> string \<Rightarrow> input \<Rightarrow> hmr \<Rightarrow> jsError + hmr" where
  "deliver cwd root (Upgrade socket) st = emit cwd root Wss (Connection socket) st"
| "deliver cwd root (ClientSends socket d) st = emit cwd root (Socket socket) (Message d) st"

fun deliverAll :: "string \<Rightarrow> string \<Rightarrow> input list \<Rightarrow> hmr \<Rightarrow> jsError + hmr" where
  "deliverAll cwd root [] st = Inr st"
| "deliverAll cwd root (i # is) st =
     (case deliver cwd root i st of
        Inl e \<Rightarrow> Inl e
      | Inr st' \<Rightarrow> deliverAll cwd root is st')"

section \<open>Resolving a third-party import (NodeResolvePlugin.onResolved)\<close>

type_synonym bundleMap = "string \<rightharpoonup> string"

text \<open>
  The collaborators of \<open>onResolved\<close> that are not among the sources are parameters:
  \<open>isNodeModule\<close>, \<open>slash\<close>, the constant \<open>WEB_MODULES_PATH\<close>, \<open>JSON.stringify\<close> of a
  bundle map, and \<open>prebundle\<close>, whose promise is fulfilled with a bundle map (\<open>Inr\<close>) or
  rejected with a cause (\<open>Inl\<close>, the cause as the template literal prints it).
\<close>

record prebundleArgs =
  entryPoints :: "string list"
  dest :: string
  root_p :: string

record resolveEnv =
  isNodeModule :: "string \<Rightarrow> bool"
  slash :: "string \<Rightarrow> string"
  webModulesPath :: string
  stringify :: "bundleMap \<Rightarrow> string"
  prebundle :: "prebundleArgs \<Rightarrow> string + bundleMap"

text \<open>
  The state \<open>onResolved\<close> shares with the other requests: the variable \<open>bundleMap\<close>
  of \<open>createApp\<close>, the keys of \<open>graph.nodes\<close>, and the calls of \<open>prebundle\<close> made so far.
\<close>

record resolver =
  bundleMap :: "bundleMap option"
  nodes :: "string list"
  invocations :: "prebundleArgs list"

text \<open>\<open>m[k]\<close> read for its truth value: an absent key and the empty string are both falsy.\<close>

definition lookupBundle :: "bundleMap \<Rightarrow> string \<Rightarrow> string option" where
  "lookupBundle m k = (case m k of None \<Rightarrow> None | Some b \<Rightarrow> if b = [] then None else Some b)"

definition notGenerated :: "resolveEnv \<Rightarrow> string \<Rightarrow> bundleMap \<Rightarrow> error" where
  "notGenerated env relativePath m =
     Error (''Bundle for '' @ [CHR 0x27] @ relativePath @ [CHR 0x27]
            @ '' was not generated in prebundling phase'' @ [CHR 0x0A] @ stringify env m)"

text \<open>The argument of \<open>prebundle\<close>: every node of the graph is an entry point.\<close>

definition prebundleCall :: "resolveEnv \<Rightarrow> string \<Rightarrow> string \<Rightarrow> resolver \<Rightarrow> prebundleArgs" where
  "prebundleCall env cwd root st =
     \<lparr>entryPoints = map (\<lambda>x. resolve cwd [root, x]) (nodes st),
      dest = resolve cwd [root, webModulesPath env],
      root_p = root\<rparr>"

datatype started = Done "error + string option" | Awaiting string prebundleArgs

text \<open>
  \<open>onResolved\<close> is an async function with one \<open>await\<close>. \<open>onResolvedStart\<close> is what runs
  up to it: the function returns, or it has called \<open>prebundle\<close> and waits.
\<close>

definition onResolvedStart ::
  "resolveEnv \<Rightarrow> string \<Rightarrow> string \<Rightarrow> string \<Rightarrow> resolver \<Rightarrow> started \<times> resolver" where
  "onResolvedStart env cwd root resolvedPath st =
     (if \<not> isNodeModule env resolvedPath then (Done (Inr None), st)
      else
        (let relativePath = slash env (relative cwd root resolvedPath) in
         case (case bundleMap st of None \<Rightarrow> None | Some m \<Rightarrow> lookupBundle m relativePath) of
           Some b \<Rightarrow> (Done (Inr (Some b)), st)
         | None \<Rightarrow>
             (let args = prebundleCall env cwd root st
              in (Awaiting relativePath args, st\<lparr>invocations := invocations st @ [args]\<rparr>))))"

text \<open>What runs after the \<open>await\<close>, once the promise of \<open>prebundle\<close> is settled.\<close>

definition onResolvedResume ::
  "resolveEnv \<Rightarrow> string \<Rightarrow> string + bundleMap \<Rightarrow> resolver
     \<Rightarrow> (error + string option) \<times> resolver" where
  "onResolvedResume env relativePath settled st =
     (case settled of
        Inl e \<Rightarrow> (Inl (Error (''Cannot prebundle: '' @ e)), st)
      | Inr m \<Rightarrow>
          (let st' = st\<lparr>bundleMap := Some m\<rparr> in
           case lookupBundle m relativePath of
             None \<Rightarrow> (Inl (notGenerated env relativePath m), st')
           | Some webBundle \<Rightarrow> (Inr (Some webBundle), st')))"

text \<open>One call of \<open>onResolved\<close> with nothing else running between its two halves.\<close>

definition onResolved ::
  "resolveEnv \<Rightarrow> string \<Rightarrow> string \<Rightarrow> string \<Rightarrow> resolver
     \<Rightarrow> (error + string option) \<times> resolver" where
  "onResolved env cwd root resolvedPath st =
     (case onResolvedStart env cwd root resolvedPath st of
        (Done r, st') \<Rightarrow> (r, st')
      | (Awaiting relativePath args, st') \<Rightarrow>
          onResolvedResume env relativePath (prebundle env args) st')"

text \<open>
  Requests on the event loop: a task is a call of \<open>onResolved\<close> that has not started,
  waits for \<open>prebundle\<close>, or has finished. A schedule names the task that runs next;
  a step runs that task up to its next \<open>await\<close> or to its end.
\<close>

datatype task = Fresh string | Waiting string prebundleArgs | Finished "error + string option"

definition stepTask ::
  "resolveEnv \<Rightarrow> string \<Rightarrow> string \<Rightarrow> task \<Rightarrow> resolver \<Rightarrow> task \<times> resolver" where
  "stepTask env cwd root t st =
     (case t of
        Fresh resolvedPath \<Rightarrow>
          (case onResolvedStart env cwd root resolvedPath st of
             (Done r, st') \<Rightarrow> (Finished r, st')
           | (Awaiting relativePath args, st') \<Rightarrow> (Waiting relativePath args, st'))
      | Waiting relativePath args \<Rightarrow>
          (case onResolvedResume env relativePath (prebundle env args) st of
             (r, st') \<Rightarrow> (Finished r, st'))
      | Finished r \<Rightarrow> (Finished r, st))"

fun runSchedule ::
  "resolveEnv \<Rightarrow> string \<Rightarrow> string \<Rightarrow> nat list \<Rightarrow> task list \<times> resolver
     \<Rightarrow> task list \<times> resolver" where
  "runSchedule env cwd root [] (ts, st) = (ts, st)"
| "runSchedule env cwd root (i # is) (ts, st) =
     (if i < length ts then
        (case stepTask env cwd root (ts ! i) st of
           (t', st') \<Rightarrow> runSchedule env cwd root is (ts[i := t'], st'))
      else runSchedule env cwd root is (ts, st))"

section \<open>The CommonJS analysis of the metafile (metafileToAnalysis)\<close>

record outputInfo =
  exports :: "string list option"
  bytes :: nat

text \<open>
  \<open>meta.outputs\<close>: the members of the object in the order of \<open>Object.keys\<close>; a member
  whose value is \<open>null\<close> is \<open>None\<close>. \<open>osAgnosticPath\<close> is not among the sources and is
  a parameter.
\<close>

type_synonym outputs = "(string \<times> outputInfo option) list"

definition isChunk :: "string \<Rightarrow> bool" where
  "isChunk output = startsWith (basename output) ''chunk.''"

definition isCommonjsInfo :: "outputInfo \<Rightarrow> bool" where
  "isCommonjsInfo info =
     (case exports info of None \<Rightarrow> False | Some es \<Rightarrow> length es = 1 \<and> es ! 0 = ''default'')"

text \<open>The callback of \<open>map\<close>: the entry of one output, \<open>undefined\<close> (\<open>None\<close>), or the throw.\<close>

definition analysisEntry ::
  "(string \<Rightarrow> string \<Rightarrow> string) \<Rightarrow> string \<Rightarrow> string \<Rightarrow> string \<Rightarrow> outputs \<Rightarrow> string
     \<Rightarrow> error + (string \<times> bool) option" where
  "analysisEntry osAgnosticPath cwd root esbuildCwd outs output =
     (if isChunk output then Inr None
      else
        (case map_of outs output of
           Some (Some info) \<Rightarrow>
             (let isCommonjs = isCommonjsInfo info in
              if \<not> isCommonjs then Inr None
              else Inr (Some (osAgnosticPath (resolve cwd [esbuildCwd, output]) root, isCommonjs)))
         | _ \<Rightarrow> Inl (Error (''cannot find output info for '' @ output))))"

fun mapEntries :: "('a \<Rightarrow> error + 'b option) \<Rightarrow> 'a list \<Rightarrow> error + 'b list" where
  "mapEntries f [] = Inr []"
| "mapEntries f (x # xs) =
     (case f x of
        Inl e \<Rightarrow> Inl e
      | Inr r \<Rightarrow>
          (case mapEntries f xs of
             Inl e \<Rightarrow> Inl e
           | Inr rs \<Rightarrow> Inr (case r of None \<Rightarrow> rs | Some y \<Rightarrow> y # rs)))"

text \<open>\<open>fromEntries(pairs)\<close>: the pairs are assigned in order, a later one replacing an earlier one.\<close>

definition fromEntries :: "('k \<times> 'v) list \<Rightarrow> ('k \<rightharpoonup> 'v)" where
  "fromEntries ps = foldl (\<lambda>m (k, v). m(k \<mapsto> v)) Map.empty ps"

record analysis =
  isCommonjs :: "string \<rightharpoonup> bool"

definition metafileToAnalysis ::
  "(string \<Rightarrow> string \<Rightarrow> string) \<Rightarrow> string \<Rightarrow> string \<Rightarrow> string \<Rightarrow> outputs \<Rightarrow> error + analysis" where
  "metafileToAnalysis osAgnosticPath cwd root esbuildCwd outs =
     (case mapEntries (analysisEntry osAgnosticPath cwd root esbuildCwd outs) (map fst outs) of
        Inl e \<Rightarrow> Inl e
      | Inr ps \<Rightarrow> Inr \<lparr>isCommonjs = fromEntries ps\<rparr>)"

section \<open>Concrete inputs\<close>

text \<open>A plugin executor whose plugins load nothing.\<close>

definition noPlugins :: pluginsExecutor where
  "noPlugins =
     \<lparr>load = (\<lambda>_. Inr None), transform = (\<lambda>_ _ _. Inr None), genSourceMapString = (\<lambda>m. m)\<rparr>"

definition rootRequest :: request where
  "rootRequest = \<lparr>path = ''/'', accept = Some ''*/*'', secFetchDest = None\<rparr>"

definition dotdotRequest :: request where
  "dotdotRequest = \<lparr>path = ''/a/../b.js'', accept = Some ''*/*'', secFetchDest = None\<rparr>"

definition relativeRequest :: request where
  "relativeRequest = \<lparr>path = ''./b.js'', accept = None, secFetchDest = Some ''script''\<rparr>"

definition outsideRequest :: request where
  "outsideRequest = \<lparr>path = ''/.../lib/x.js'', accept = Some ''*/*'', secFetchDest = None\<rparr>"

definition outsideModuleRequest :: request where
  "outsideModuleRequest =
     \<lparr>path = ''/.../node_modules/p/i.js'', accept = Some ''*/*'', secFetchDest = None\<rparr>"

text \<open>
  Collaborators of \<open>onResolved\<close>: a module is a node module when its path contains
  \<open>node_modules\<close>; the pre-bundler fails with the cause \<open>boom\<close>, or answers a bundle
  for the package \<open>foo\<close>.
\<close>

definition failingEnv :: resolveEnv where
  "failingEnv =
     \<lparr>isNodeModule = (\<lambda>p. includesStr p ''node_modules''), slash = (\<lambda>p. p),
      webModulesPath = ''web_modules'', stringify = (\<lambda>_. ''{}''),
      prebundle = (\<lambda>_. Inl ''boom'')\<rparr>"

definition fooBundle :: bundleMap where
  "fooBundle = [''node_modules/foo/index.js'' \<mapsto> ''web_modules/foo.js'']"

definition bundlingEnv :: resolveEnv where
  "bundlingEnv =
     \<lparr>isNodeModule = (\<lambda>p. includesStr p ''node_modules''), slash = (\<lambda>p. p),
      webModulesPath = ''web_modules'', stringify = (\<lambda>_. ''{}''),
      prebundle = (\<lambda>_. Inr fooBundle)\<rparr>"

definition unbundled :: resolver where
  "unbundled = \<lparr>bundleMap = None, nodes = [''main.js''], invocations = []\<rparr>"

definition fooPath :: string where
  "fooPath = ''/root/node_modules/foo/index.js''"

text \<open>A metafile with a CommonJS output, a chunk and an output with two exports.\<close>

definition samePath :: "string \<Rightarrow> string \<Rightarrow> string" where
  "samePath p root = p"

definition exampleOutputs :: outputs where
  "exampleOutputs =
     [(''out/a.js'', Some \<lparr>exports = Some [''default''], bytes = 10\<rparr>),
      (''out/chunk.X.js'', Some \<lparr>exports = Some [''default''], bytes = 20\<rparr>),
      (''out/b.js'', Some \<lparr>exports = Some [''default'', ''x''], bytes = 30\<rparr>)]"

section \<open>Predicates of the properties\<close>

text \<open>
  The shape the analysis is said to recognise, in the words of the property: the
  basename of the output does not start with \<open>chunk.\<close> and its export list has exactly
  one element, \<open>default\<close>.
\<close>

definition commonjsShape :: "outputs \<Rightarrow> string \<Rightarrow> bool" where
  "commonjsShape outs output =
     (\<not> startsWith (basename output) ''chunk.''
      \<and> (case map_of outs output of
            Some (Some info) \<Rightarrow> exports info = Some [''default'']
          | _ \<Rightarrow> False))"

text \<open>The entry the callback of \<open>metafileToAnalysis\<close> answers for an output that has its info.\<close>

definition entryOf ::
  "(string \<Rightarrow> string \<Rightarrow> string) \<Rightarrow> string \<Rightarrow> string \<Rightarrow> string \<Rightarrow> outputs \<Rightarrow> string
     \<Rightarrow> (string \<times> bool) option" where
  "entryOf K cwd root ecwd outs output =
     (if commonjsShape outs output then Some (K (resolve cwd [ecwd, output]) root, True)
      else None)"

text \<open>
  A segment of a normalised path: not empty, not \<open>.\<close>, not \<open>..\<close>, and without
  a separator.
\<close>

definition plainSegment :: "string \<Rightarrow> bool" where
  "plainSegment s = (s \<noteq> [] \<and> s \<noteq> ''.'' \<and> s \<noteq> ''..'' \<and> CHR ''/'' \<notin> set s)"

text \<open>
  The path the decoder is shown to return for the URL of \<open>p\<close>: the segments of the
  root, one \<open>..\<close> for each segment of the root that \<open>p\<close> does not share, and the
  remaining segments of \<open>p\<close>.
\<close>

definition decoded :: "string \<Rightarrow> string \<Rightarrow> string \<Rightarrow> string" where
  "decoded cwd root p =
     (case dropCommon (resolveSegments cwd [root]) (resolveSegments cwd [root, p]) of
        (fs, ts) \<Rightarrow>
          CHR ''/'' # joinWith CHR ''/'' (resolveSegments cwd [root] @ map (\<lambda>_. ''..'') fs @ ts))"

text \<open>Every listener is registered on the socket server, none on a client's socket.\<close>

definition serverOnly :: "hmr \<Rightarrow> bool" where
  "serverOnly st = list_all (\<lambda>(e, name, l). e = Wss) (listeners st)"

section \<open>What the decoder throws\<close>

lemma decode_errors:
  "decodeFrom s = Inl e \<Longrightarrow> e = URIError"
  "contBytes os n t = Inl e \<Longrightarrow> e = URIError"
proof (induction s and os n t arbitrary: e and e rule: decodeFrom_contBytes.induct)
  case 1
  then show ?case by simp
next
  case (2 c cs)
  show ?case
  proof (cases "c = CHR ''%''")
    case False
    with 2 show ?thesis by (auto split: sum.splits)
  next
    case pct: True
    show ?thesis
    proof (cases cs)
      case Nil
      with 2 pct show ?thesis by simp
    next
      case (Cons x xs)
      show ?thesis
      proof (cases xs)
        case Nil
        with 2 pct Cons show ?thesis by simp
      next
        case (Cons y rest)
        note cs = \<open>cs = x # xs\<close> \<open>xs = y # rest\<close>
        show ?thesis
        proof (cases "hexbyte x y")
          case None
          with 2 pct cs show ?thesis by simp
        next
          case (Some b)
          consider "leadingOnes b = 0"
            | "leadingOnes b \<noteq> 0" "leadingOnes b = 1 \<or> leadingOnes b > 4"
            | "leadingOnes b \<noteq> 0" "\<not> (leadingOnes b = 1 \<or> leadingOnes b > 4)"
            by blast
          then show ?thesis
          proof cases
            case 1
            have "decodeFrom rest = Inl e' \<Longrightarrow> e' = URIError" for e'
              using 2(2)[of x xs y rest b e'] pct cs Some 1 by simp
            with 2(4) pct cs Some 1 show ?thesis
              by (auto split: sum.splits)
          next
            case 2
            with \<open>decodeFrom (c # cs) = Inl e\<close> pct cs Some show ?thesis by auto
          next
            case 3
            have "contBytes [b] (leadingOnes b - 1) rest = Inl e' \<Longrightarrow> e' = URIError" for e'
              using 2(3)[of x xs y rest b e'] pct cs Some 3 by simp
            with 2(4) pct cs Some 3 show ?thesis by auto
          qed
        qed
      qed
    qed
  qed
next
  case (3 octets rest)
  then show ?case by (auto split: sum.splits if_splits)
next
  case (4 octets j p x y rest)
  then show ?case by (auto split: option.splits if_splits)
qed simp_all

lemma importPathToFile_error: "importPathToFile cwd root p = Inl e \<Longrightarrow> e = URIError"
  using decode_errors(1)[of p e]
  by (auto simp: importPathToFile_def decodeURIComponent_def Let_def split: sum.splits)

section \<open>The request handler\<close>

lemma escape_prefix_not_relative:
  "startsWith p (CHR ''/'' # dotdotEncoding) \<Longrightarrow> \<not> startsWith p ''.'' \<and> p \<noteq> ''/''"
  by (cases p) (auto simp: startsWith_def dotdotEncoding_def)

text \<open>
  C5, as the claim states it, fails: a request whose path has a \<open>..\<close> segment after
  the first character is intercepted and not rejected. The handler decodes the path
  and asks the plugins to load \<open>/root/b.js\<close>.
\<close>

theorem C5_dotdot_segment_not_rejected:
  "''..'' \<in> set (splitOn CHR ''/'' (path dotdotRequest))
   \<and> pluginsMiddleware ''/cwd'' ''/root'' noPlugins dotdotRequest = (Next, [Load ''/root/b.js''])"
  by code_simp

text \<open>
  C5, amended: the handler throws the error about unrewritten import paths, before it
  touches the watcher or the plugins, exactly for the requests it intercepts whose path
  begins with the character \<open>.\<close> (the guard is \<open>ctx.path.startsWith('.')\<close>).
\<close>

theorem C5_invalid_specifier_iff:
  "(pluginsMiddleware cwd root ex req = (Throw (invalidSpecifier (path req)), []))
     = (path req \<noteq> ''/'' \<and> moduleAccept req \<and> startsWith (path req) ''.'')"
  by (auto simp: pluginsMiddleware_def Let_def invalidSpecifier_def
       split: sum.splits option.splits dest: importPathToFile_error)

theorem C5_invalid_specifier_witness:
  "pluginsMiddleware ''/cwd'' ''/root'' noPlugins relativeRequest
     = (Throw (invalidSpecifier ''./b.js''), [])"
  using C5_invalid_specifier_iff [of "''/cwd''" "''/root''" noPlugins relativeRequest]
  by (simp add: relativeRequest_def moduleAccept_def startsWith_def)

text \<open>
  C6, as the claim states it, fails: a request for the root path that accepts \<open>*/*\<close>
  declares the accept context and is passed to the next handler all the same.
\<close>

theorem C6_root_path_not_intercepted:
  "moduleAccept rootRequest
   \<and> pluginsMiddleware ''/cwd'' ''/root'' noPlugins rootRequest = (Next, [])"
  by (simp add: pluginsMiddleware_def moduleAccept_def rootRequest_def)

text \<open>
  C6, amended: a request is intercepted (the handler does anything other than passing
  it straight to the next handler with no effect) if and only if its path is not \<open>/\<close>
  and its accept header is \<open>*/*\<close>, or its sec-fetch-dest header is \<open>script\<close>, or its
  path ends with \<open>.map\<close>.
\<close>

theorem C6_intercepted_iff:
  "(pluginsMiddleware cwd root ex req \<noteq> (Next, []))
     = (path req \<noteq> ''/''
        \<and> (accept req = Some ''*/*'' \<or> secFetchDest req = Some ''script''
             \<or> endsWith (path req) ''.map''))"
  by (auto simp: pluginsMiddleware_def moduleAccept_def Let_def split: sum.splits option.splits)

theorem C6_intercepted_witness:
  "pluginsMiddleware ''/cwd'' ''/root'' noPlugins dotdotRequest \<noteq> (Next, [])"
  using C6_intercepted_iff [of "''/cwd''" "''/root''" noPlugins dotdotRequest]
  by (simp add: dotdotRequest_def)

text \<open>
  C7, as the claim states it, fails: an intercepted request whose path begins with the
  escape token and decodes to a path containing \<open>node_modules\<close> adds nothing to the
  watcher.
\<close>

theorem C7_node_modules_not_watched:
  "startsWith (path outsideModuleRequest) (CHR ''/'' # dotdotEncoding)
   \<and> pluginsMiddleware ''/cwd'' ''/root'' noPlugins outsideModuleRequest
       = (Next, [Load ''/root/../node_modules/p/i.js''])"
  by code_simp

text \<open>
  C7, amended: the handler adds a path to the watcher exactly when the request is
  intercepted, its path begins with \<open>/\<close> followed by the escape token, the path decodes
  (to the path that is added), and the decoded path does not contain \<open>node_modules\<close>.
  In every other case the handler adds no watch entry.
\<close>

theorem C7_watcher_add_iff:
  "(WatcherAdd f \<in> set (snd (pluginsMiddleware cwd root ex req)))
     = (moduleAccept req \<and> startsWith (path req) (CHR ''/'' # dotdotEncoding)
        \<and> importPathToFile cwd root (path req) = Inr f \<and> \<not> includesStr f ''node_modules'')"
  using escape_prefix_not_relative[of "path req"]
  by (auto simp: pluginsMiddleware_def Let_def split: sum.splits option.splits)

theorem C7_watcher_add_witness:
  "WatcherAdd ''/root/../lib/x.js''
     \<in> set (snd (pluginsMiddleware ''/cwd'' ''/root'' noPlugins outsideRequest))"
proof -
  have "moduleAccept outsideRequest"
    by (simp add: moduleAccept_def outsideRequest_def)
  moreover have "startsWith (path outsideRequest) (CHR ''/'' # dotdotEncoding)"
    by code_simp
  moreover have "importPathToFile ''/cwd'' ''/root'' (path outsideRequest) = Inr ''/root/../lib/x.js''"
    by code_simp
  moreover have "\<not> includesStr ''/root/../lib/x.js'' ''node_modules''"
    by code_simp
  ultimately show ?thesis
    using C7_watcher_add_iff [of "''/root/../lib/x.js''" "''/cwd''" "''/root''" noPlugins outsideRequest]
    by simp
qed

section \<open>The CommonJS analysis\<close>

lemma isCommonjsInfo_iff: "isCommonjsInfo info = (exports info = Some [''default''])"
  by (cases "exports info") (auto simp: isCommonjsInfo_def length_Suc_conv)

lemma mapEntries_total:
  assumes "\<And>x. x \<in> set xs \<Longrightarrow> f x = Inr (g x)"
  shows "mapEntries f xs = Inr (List.map_filter g xs)"
  using assms by (induction xs) (auto simp: List.map_filter_simps split: option.splits)

lemma fromEntries_foldl:
  "foldl (\<lambda>m (k, v). m(k \<mapsto> v)) m0 ps k
     = (case map_of (rev ps) k of None \<Rightarrow> m0 k | Some v \<Rightarrow> Some v)"
  by (induction ps arbitrary: m0) (auto simp: map_add_def split: option.splits)

lemma fromEntries_all_true:
  assumes "\<And>p. p \<in> set ps \<Longrightarrow> snd p = True"
  shows "fromEntries ps k = (if k \<in> fst ` set ps then Some True else None)"
proof (cases "map_of (rev ps) k")
  case None
  then have "k \<notin> fst ` set ps" by (simp add: map_of_eq_None_iff)
  with None show ?thesis by (simp add: fromEntries_def fromEntries_foldl)
next
  case (Some v)
  then have "(k, v) \<in> set ps" by (auto dest: map_of_SomeD)
  with assms have "v = True" "k \<in> fst ` set ps" by force+
  with Some show ?thesis by (simp add: fromEntries_def fromEntries_foldl)
qed

lemma analysisEntry_present:
  assumes "None \<notin> snd ` set outs" "output \<in> fst ` set outs"
  shows "analysisEntry K cwd root ecwd outs output = Inr (entryOf K cwd root ecwd outs output)"
proof -
  from assms(2) obtain v where "map_of outs output = Some v"
    by (metis domD dom_map_of_conv_image_fst)
  moreover from this assms(1) have "v \<noteq> None"
    by (metis map_of_SomeD image_eqI snd_conv)
  ultimately obtain info where "map_of outs output = Some (Some info)" by auto
  then show ?thesis
    by (simp add: analysisEntry_def entryOf_def commonjsShape_def isChunk_def isCommonjsInfo_iff)
qed

text \<open>
  C10: when every output of the metafile has its info (as the type of the metafile
  says), the analysis is produced, and its \<open>isCommonjs\<close> map holds \<open>true\<close> under exactly
  the keys of the outputs whose basename does not start with \<open>chunk.\<close> and whose export
  list is the single name \<open>default\<close>; no other key is in the map. Where distinct outputs
  have distinct keys, an output's key is in the map if and only if the output has that
  shape.
\<close>

theorem C10_isCommonjs_map:
  assumes "None \<notin> snd ` set outs"
  shows "\<exists>a. metafileToAnalysis K cwd root ecwd outs = Inr a
     \<and> (\<forall>k. isCommonjs a k =
          (if k \<in> (\<lambda>output. K (resolve cwd [ecwd, output]) root)
                    ` {output \<in> fst ` set outs. commonjsShape outs output}
           then Some True else None))
     \<and> (inj_on (\<lambda>output. K (resolve cwd [ecwd, output]) root) (fst ` set outs) \<longrightarrow>
          (\<forall>output \<in> fst ` set outs.
             (isCommonjs a (K (resolve cwd [ecwd, output]) root) = Some True)
               = commonjsShape outs output))"
proof -
  let ?g = "entryOf K cwd root ecwd outs"
  let ?ps = "List.map_filter ?g (map fst outs)"
  let ?key = "\<lambda>output. K (resolve cwd [ecwd, output]) root"
  have m: "mapEntries (analysisEntry K cwd root ecwd outs) (map fst outs) = Inr ?ps"
    by (rule mapEntries_total) (simp add: analysisEntry_present[OF assms])
  have t: "snd p = True" if "p \<in> set ?ps" for p
    using that by (auto simp: List.map_filter_def entryOf_def split: if_splits)
  have d: "fst ` set ?ps = ?key ` {output \<in> fst ` set outs. commonjsShape outs output}"
    by (force simp: List.map_filter_def entryOf_def image_iff split: if_splits)
  have a: "metafileToAnalysis K cwd root ecwd outs = Inr \<lparr>isCommonjs = fromEntries ?ps\<rparr>"
    using m by (simp add: metafileToAnalysis_def)
  have k: "fromEntries ?ps k =
          (if k \<in> ?key ` {output \<in> fst ` set outs. commonjsShape outs output}
           then Some True else None)" for k
    using fromEntries_all_true[of ?ps k, OF t] d by simp
  have i: "(fromEntries ?ps (?key out) = Some True) = commonjsShape outs out"
    if "inj_on ?key (fst ` set outs)" "out \<in> fst ` set outs" for out
  proof -
    have "(?key out \<in> ?key ` {output \<in> fst ` set outs. commonjsShape outs output})
            = commonjsShape outs out"
      using that by (auto dest: inj_onD)
    then show ?thesis by (simp add: k)
  qed
  show ?thesis using a k i by simp
qed

lemma example_shapes:
  "commonjsShape exampleOutputs ''out/a.js''"
  "\<not> commonjsShape exampleOutputs ''out/chunk.X.js''"
  "\<not> commonjsShape exampleOutputs ''out/b.js''"
  by code_simp+

lemma example_keys:
  "resolve ''/cwd'' [''/cwd'', ''out/a.js''] = ''/cwd/out/a.js''"
  "resolve ''/cwd'' [''/cwd'', ''out/chunk.X.js''] = ''/cwd/out/chunk.X.js''"
  "resolve ''/cwd'' [''/cwd'', ''out/b.js''] = ''/cwd/out/b.js''"
  by code_simp+

theorem C10_isCommonjs_witness:
  "None \<notin> snd ` set exampleOutputs
   \<and> inj_on (\<lambda>output. samePath (resolve ''/cwd'' [''/cwd'', output]) ''/root'')
        (fst ` set exampleOutputs)
   \<and> (\<exists>a. metafileToAnalysis samePath ''/cwd'' ''/root'' ''/cwd'' exampleOutputs = Inr a
        \<and> isCommonjs a ''/cwd/out/a.js'' = Some True
        \<and> isCommonjs a ''/cwd/out/chunk.X.js'' = None
        \<and> isCommonjs a ''/cwd/out/b.js'' = None)"
proof -
  have h: "None \<notin> snd ` set exampleOutputs"
    by (simp add: exampleOutputs_def)
  have i: "inj_on (\<lambda>output. samePath (resolve ''/cwd'' [''/cwd'', output]) ''/root'')
             (fst ` set exampleOutputs)"
    by (simp add: exampleOutputs_def samePath_def example_keys)
  have s: "{output \<in> fst ` set exampleOutputs. commonjsShape exampleOutputs output}
             = {''out/a.js''}"
    using example_shapes by (auto simp: exampleOutputs_def)
  from C10_isCommonjs_map [OF h, of samePath "''/cwd''" "''/root''" "''/cwd''"]
  obtain a where a: "metafileToAnalysis samePath ''/cwd'' ''/root'' ''/cwd'' exampleOutputs = Inr a"
    and k: "\<And>k. isCommonjs a k = (if k \<in> {''/cwd/out/a.js''} then Some True else None)"
    unfolding s by (auto simp: samePath_def example_keys)
  show ?thesis using h i a by (simp add: k)
qed

section \<open>The failure of the pre-bundler\<close>

lemma includesStr_self: "includesStr ys ys"
  by (cases ys) (simp_all add: startsWith_def)

lemma includesStr_append: "includesStr (xs @ ys) ys"
  by (induction xs) (simp_all add: includesStr_self)

text \<open>
  C8, as the claim states it, fails: when the pre-bundler fails with the cause \<open>boom\<close>
  while the package \<open>foo\<close> is resolved, the error of the request does not name the
  package.
\<close>

theorem C8_package_not_named:
  "fst (onResolved failingEnv ''/cwd'' ''/root'' fooPath unbundled)
     = Inl (Error ''Cannot prebundle: boom'')
   \<and> \<not> includesStr ''Cannot prebundle: boom'' ''foo''"
  by code_simp

text \<open>
  C8, amended: when a node module that is not in the bundle map is resolved and the
  pre-bundler fails, \<open>onResolved\<close> throws to its caller an error whose message is
  \<open>Cannot prebundle: \<close> followed by the cause (so the message contains the cause; the
  package is not part of it), and the bundle map is left as it was.
\<close>

theorem C8_prebundle_failure_message:
  assumes "isNodeModule env resolvedPath"
    and "(case bundleMap st of None \<Rightarrow> None
          | Some m \<Rightarrow> lookupBundle m (slash env (relative cwd root resolvedPath))) = None"
    and "prebundle env (prebundleCall env cwd root st) = Inl cause"
  shows "onResolved env cwd root resolvedPath st
           = (Inl (Error (''Cannot prebundle: '' @ cause)),
              st\<lparr>invocations := invocations st @ [prebundleCall env cwd root st]\<rparr>)
         \<and> includesStr (''Cannot prebundle: '' @ cause) cause"
  using assms includesStr_append[of "''Cannot prebundle: ''" cause]
  by (simp add: onResolved_def onResolvedStart_def onResolvedResume_def Let_def)

theorem C8_prebundle_failure_witness:
  "isNodeModule failingEnv fooPath
   \<and> bundleMap unbundled = None
   \<and> prebundle failingEnv (prebundleCall failingEnv ''/cwd'' ''/root'' unbundled) = Inl ''boom''
   \<and> fst (onResolved failingEnv ''/cwd'' ''/root'' fooPath unbundled)
       = Inl (Error ''Cannot prebundle: boom'')
   \<and> bundleMap (snd (onResolved failingEnv ''/cwd'' ''/root'' fooPath unbundled)) = None"
proof -
  have a: "isNodeModule failingEnv fooPath"
    by code_simp
  have b: "bundleMap unbundled = None"
    by (simp add: unbundled_def)
  have c: "prebundle failingEnv (prebundleCall failingEnv ''/cwd'' ''/root'' unbundled) = Inl ''boom''"
    by (simp add: failingEnv_def)
  show ?thesis
    using C8_prebundle_failure_message [where env = failingEnv and resolvedPath = fooPath
        and st = unbundled and cwd = "''/cwd''" and root = "''/root''" and cause = "''boom''"]
      a b c
    by simp
qed

section \<open>Two requests for a package that is not bundled\<close>

text \<open>
  C9 fails on the code: two requests for the package \<open>foo\<close>, not yet bundled, both
  reach the \<open>await\<close> before either pre-bundle run is settled (schedule 0, 1, 0, 1).
  Each has called \<open>prebundle\<close>: two invocations, not one.
\<close>

theorem C9_two_prebundle_invocations:
  "map_prod id (\<lambda>st. length (invocations st))
     (runSchedule bundlingEnv ''/cwd'' ''/root'' [0, 1, 0, 1]
        ([Fresh fooPath, Fresh fooPath], unbundled))
   = ([Finished (Inr (Some ''web_modules/foo.js'')),
       Finished (Inr (Some ''web_modules/foo.js''))], 2)"
  by code_simp

text \<open>When the first request has finished before the second starts, the bundle map is shared.\<close>

lemma sequential_requests_share_bundle:
  "map_prod id (\<lambda>st. length (invocations st))
     (runSchedule bundlingEnv ''/cwd'' ''/root'' [0, 0, 1, 1]
        ([Fresh fooPath, Fresh fooPath], unbundled))
   = ([Finished (Inr (Some ''web_modules/foo.js'')),
       Finished (Inr (Some ''web_modules/foo.js''))], 1)"
  by code_simp

section \<open>The HMR channel\<close>

text \<open>
  The listener of \<open>message\<close> does what C1 describes whenever it is called: the node
  ensured for the decoded path has both flags set.
\<close>

lemma onMessage_hotAccept:
  assumes "importPathToFile cwd root p = Inr file"
  shows "\<exists>st' n. onMessage cwd root (Payload ''hotAccept'' p) st = Inr st'
     \<and> fst (ensureEntry (graph st') file) = n \<and> hasHmrAccept n \<and> isHmrEnabled n"
  using assms by (auto simp: onMessage_def ensureEntry_def split: option.splits)

lemma emit_socket:
  assumes "serverOnly st"
  shows "emit cwd root (Socket k) ev st = Inr st"
proof -
  have "filter (\<lambda>(e', name, _). e' = Socket k \<and> name = eventName ev) (listeners st) = []"
    using assms by (auto simp: serverOnly_def list_all_iff filter_empty_conv)
  then show ?thesis by (simp add: emit_def)
qed

lemma runAll_connection:
  "\<exists>st'. runAll cwd root ls (Connection k) st = Inr st' \<and> graph st' = graph st
         \<and> (serverOnly st \<longrightarrow> serverOnly st')"
proof (induction ls arbitrary: st)
  case Nil
  then show ?case by simp
next
  case (Cons l ls)
  show ?case
  proof (cases l)
    case OnConnection
    have "graph (onConnection k st) = graph st"
      and "serverOnly st \<longrightarrow> serverOnly (onConnection k st)"
      by (simp_all add: onConnection_def on_def serverOnly_def)
    with Cons[of "onConnection k st"] OnConnection show ?thesis by auto
  next
    case OnMessage
    with Cons[of st] show ?thesis by simp
  qed
qed

lemma deliver_graph:
  assumes "serverOnly st"
  shows "\<exists>st'. deliver cwd root i st = Inr st' \<and> graph st' = graph st \<and> serverOnly st'"
proof (cases i)
  case (Upgrade k)
  with runAll_connection[of cwd root _ k st] assms show ?thesis
    by (simp add: emit_def)
next
  case (ClientSends k d)
  with emit_socket[OF assms] assms show ?thesis by simp
qed

lemma deliverAll_graph:
  assumes "serverOnly st"
  shows "\<exists>st'. deliverAll cwd root is st = Inr st' \<and> graph st' = graph st"
  using assms
proof (induction "is" arbitrary: st)
  case Nil
  then show ?case by simp
next
  case (Cons i "is")
  from deliver_graph[OF Cons.prems, of cwd root i]
  obtain st1 where "deliver cwd root i st = Inr st1" "graph st1 = graph st" "serverOnly st1"
    by blast
  with Cons.IH[of st1] show ?case by auto
qed

text \<open>
  The listener is registered on \<open>wss\<close>, and a client's message is an event of the
  client's socket: whatever clients connect and send, the graph stays as it was.
\<close>

lemma hmr_graph_never_changes:
  "\<exists>st. deliverAll cwd root inputs (hmrStarted g) = Inr st \<and> graph st = g"
proof -
  have "serverOnly (hmrStarted g)"
    by (simp add: hmrStarted_def on_def serverOnly_def)
  from deliverAll_graph[OF this, of cwd root inputs] show ?thesis
    by (simp add: hmrStarted_def on_def)
qed

text \<open>
  C1 fails on the code: a client connects and sends \<open>hotAccept\<close> for \<open>/a.js\<close>. The
  connection registered the listener of \<open>message\<close> on \<open>wss\<close>; the client's message
  calls no listener, and the graph has no node for \<open>/root/a.js\<close>.
\<close>

theorem C1_hotAccept_not_delivered:
  "map_sum id (\<lambda>st. (graph st ''/root/a.js'', listeners st))
     (deliverAll ''/cwd'' ''/root''
        [Upgrade 0, ClientSends 0 (Payload ''hotAccept'' ''/a.js'')] (hmrStarted Map.empty))
   = Inr (None, [(Wss, ''connection'', OnConnection), (Wss, ''message'', OnMessage)])"
  by code_simp

section \<open>The path codec: splitting and the two replacements\<close>

lemma splitOn_nonempty: "splitOn d s \<noteq> []"
  by (induction s) (auto split: list.splits)

lemma splitOn_Cons:
  "splitOn d (c # cs) = (if c = d then [] # splitOn d cs
                         else (c # hd (splitOn d cs)) # tl (splitOn d cs))"
  using splitOn_nonempty[of d cs] by (cases "splitOn d cs") auto

lemma splitOn_no_delim: "seg \<in> set (splitOn d s) \<Longrightarrow> d \<notin> set seg"
  by (induction s arbitrary: seg) (auto split: list.splits if_splits)

lemma splitOn_append: "splitOn d (a @ d # b) = splitOn d a @ splitOn d b"
  by (induction a) (auto simp: splitOn_nonempty split: list.splits)

lemma replaceDotDot_notdot: "c \<noteq> CHR ''.'' \<Longrightarrow> replaceDotDot (c # cs) = c # replaceDotDot cs"
  by (cases cs) auto

lemma replaceDotDot_dot_notdot:
  "c \<noteq> CHR ''.'' \<Longrightarrow> replaceDotDot (CHR ''.'' # c # cs) = CHR ''.'' # c # replaceDotDot cs"
  by (simp add: replaceDotDot_notdot)

lemma replaceEncoding_notdot: "c \<noteq> CHR ''.'' \<Longrightarrow> replaceEncoding (c # cs) = c # replaceEncoding cs"
  by (cases cs rule: replaceEncoding.cases) auto

lemma replaceEncoding_dot_notdot:
  "c \<noteq> CHR ''.'' \<Longrightarrow> replaceEncoding (x # c # cs) = x # c # replaceEncoding cs"
  by (cases cs) (auto simp: replaceEncoding_notdot)

lemma replace_roundtrip: "replaceEncoding (replaceDotDot s) = s"
proof (induction s rule: replaceDotDot.induct)
  case (1 a b cs)
  show ?case
  proof (cases "a = CHR ''.'' \<and> b = CHR ''.''")
    case True
    with 1 show ?thesis by (simp add: dotdotEncoding_def)
  next
    case False
    show ?thesis
    proof (cases "a = CHR ''.''")
      case True
      with False have b: "b \<noteq> CHR ''.''" by simp
      have "replaceDotDot (a # b # cs) = a # b # replaceDotDot cs"
        using True b by (simp add: replaceDotDot_notdot)
      moreover have "replaceDotDot (b # cs) = b # replaceDotDot cs"
        using b by (simp add: replaceDotDot_notdot)
      ultimately show ?thesis
        using 1(2)[OF False] b by (simp add: replaceEncoding_dot_notdot replaceEncoding_notdot)
    next
      case na: False
      with 1(2)[OF False] False show ?thesis
        by (simp add: replaceEncoding_notdot)
    qed
  qed
qed simp_all

lemma replaceDotDot_inj: "replaceDotDot s = replaceDotDot t \<Longrightarrow> s = t"
  by (metis replace_roundtrip)

lemma replaceDotDot_append_slash:
  "replaceDotDot (a @ CHR ''/'' # b) = replaceDotDot a @ CHR ''/'' # replaceDotDot b"
proof (induction a rule: replaceDotDot.induct)
  case (1 x y cs)
  then show ?case by (auto simp: dotdotEncoding_def)
qed (simp_all add: replaceDotDot_notdot)

lemma replaceEncoding_append_slash:
  "replaceEncoding (a @ CHR ''/'' # b) = replaceEncoding a @ CHR ''/'' # replaceEncoding b"
proof (induction a rule: replaceEncoding.induct)
  case (1 x y z cs)
  then show ?case by auto
qed (simp_all add: replaceEncoding_notdot replaceEncoding_dot_notdot)

lemma replaceDotDot_join:
  "replaceDotDot (joinWith CHR ''/'' segs) = joinWith CHR ''/'' (map replaceDotDot segs)"
  by (induction "CHR ''/''" segs rule: joinWith.induct) (simp_all add: replaceDotDot_append_slash)

lemma replaceEncoding_join:
  "replaceEncoding (joinWith CHR ''/'' segs) = joinWith CHR ''/'' (map replaceEncoding segs)"
  by (induction "CHR ''/''" segs rule: joinWith.induct) (simp_all add: replaceEncoding_append_slash)

lemma replaceDotDot_not_dotdot: "replaceDotDot s \<noteq> ''..''"
proof (cases s rule: replaceDotDot.cases)
  case (1 a b cs)
  show ?thesis
  proof (cases "a = CHR ''.'' \<and> b = CHR ''.''")
    case True
    with 1 show ?thesis by (simp add: dotdotEncoding_def)
  next
    case False
    show ?thesis
    proof (cases "a = CHR ''.''")
      case True
      with False have "b \<noteq> CHR ''.''" by simp
      with 1 True show ?thesis by (simp add: replaceDotDot_notdot)
    next
      case False
      with 1 show ?thesis by (simp add: replaceDotDot_notdot)
    qed
  qed
qed simp_all

lemma splitOn_replaceDotDot:
  "splitOn CHR ''/'' (replaceDotDot s) = map replaceDotDot (splitOn CHR ''/'' s)"
proof (induction s rule: length_induct)
  case (1 s)
  show ?case
  proof (cases "CHR ''/'' \<in> set s")
    case False
    have n: "splitOn CHR ''/'' t = [t]" if "CHR ''/'' \<notin> set t" for t
      using that by (induction t) auto
    have "set (replaceDotDot t) \<subseteq> set t \<union> {CHR ''.''}" for t
      by (induction t rule: replaceDotDot.induct) (auto simp: dotdotEncoding_def)
    with False have "CHR ''/'' \<notin> set (replaceDotDot s)" by auto
    with False n show ?thesis by simp
  next
    case True
    then obtain a b where s: "s = a @ CHR ''/'' # b" "CHR ''/'' \<notin> set a"
      by (meson split_list_first)
    have n: "splitOn CHR ''/'' t = [t]" if "CHR ''/'' \<notin> set t" for t
      using that by (induction t) auto
    have sub: "set (replaceDotDot t) \<subseteq> set t \<union> {CHR ''.''}" for t
      by (induction t rule: replaceDotDot.induct) (auto simp: dotdotEncoding_def)
    from s sub[of a] have na: "CHR ''/'' \<notin> set (replaceDotDot a)" by auto
    have "length b < length s" using s by simp
    with 1 have ih: "splitOn CHR ''/'' (replaceDotDot b) = map replaceDotDot (splitOn CHR ''/'' b)"
      by blast
    show ?thesis
      using s na ih by (simp add: replaceDotDot_append_slash splitOn_append n)
  qed
qed


text \<open>
  C4: for every root and path, no segment of the URL that \<open>fileToImportPath\<close> returns
  is exactly \<open>..\<close>. The segments of the URL are the segments of the relative path,
  each rewritten by the replacement, and the replacement turns \<open>..\<close> into the
  three-dot token.
\<close>

theorem C4_no_dotdot_segment:
  "''..'' \<notin> set (splitOn CHR ''/'' (fileToImportPath cwd root p))
   \<and> splitOn CHR ''/'' (fileToImportPath cwd root p)
       = [] # map replaceDotDot (splitOn CHR ''/'' (relative cwd root (resolve cwd [root, p])))
   \<and> replaceDotDot ''..'' = dotdotEncoding"
proof -
  let ?rel = "relative cwd root (resolve cwd [root, p])"
  have s: "splitOn CHR ''/'' (fileToImportPath cwd root p)
             = [] # map replaceDotDot (splitOn CHR ''/'' ?rel)"
    by (simp add: fileToImportPath_def Let_def splitOn_replaceDotDot)
  have "''..'' \<notin> set (map replaceDotDot (splitOn CHR ''/'' ?rel))"
    using replaceDotDot_not_dotdot by (auto simp: image_iff) metis
  with s show ?thesis by simp
qed

section \<open>The path codec: segments, normalisation and injectivity\<close>

lemma normalizeSegments_append:
  "normalizeSegments acc (xs @ ys) = normalizeSegments (rev (normalizeSegments acc xs)) ys"
  by (induction acc xs rule: normalizeSegments.induct) (auto split: list.splits)

lemma normalizeSegments_plain:
  "list_all plainSegment xs \<Longrightarrow> normalizeSegments acc xs = rev acc @ xs"
  by (induction xs arbitrary: acc) (auto simp: plainSegment_def)

lemma normalizeSegments_is_plain:
  "list_all plainSegment acc \<Longrightarrow> (\<forall>s \<in> set xs. CHR ''/'' \<notin> set s)
     \<Longrightarrow> list_all plainSegment (normalizeSegments acc xs)"
proof (induction acc xs rule: normalizeSegments.induct)
  case (1 acc)
  then show ?case by (simp add: list_all_iff)
next
  case (2 acc s ss)
  then show ?case by (auto simp: plainSegment_def split: list.splits)
qed

lemma resolveSegments_plain: "list_all plainSegment (resolveSegments cwd args)"
  unfolding resolveSegments_def
  by (rule normalizeSegments_is_plain) (auto dest: splitOn_no_delim)

lemma splitOn_none: "d \<notin> set t \<Longrightarrow> splitOn d t = [t]"
  by (induction t) auto

lemma splitOn_join:
  "(\<forall>s \<in> set segs. d \<notin> set s) \<Longrightarrow> segs \<noteq> [] \<Longrightarrow> splitOn d (joinWith d segs) = segs"
  by (induction d segs rule: joinWith.induct) (simp_all add: splitOn_append splitOn_none)

lemma segments_of_join:
  assumes "\<forall>s \<in> set segs. s \<noteq> [] \<and> CHR ''/'' \<notin> set s"
  shows "filter (\<lambda>s. s \<noteq> []) (splitOn CHR ''/'' (joinWith CHR ''/'' segs)) = segs"
proof (cases "segs = []")
  case True
  then show ?thesis by simp
next
  case False
  with assms have "splitOn CHR ''/'' (joinWith CHR ''/'' segs) = segs"
    by (simp add: splitOn_join)
  with assms show ?thesis by (simp add: filter_id_conv)
qed

lemma joinWith_inj:
  assumes "\<forall>s \<in> set xs. s \<noteq> [] \<and> CHR ''/'' \<notin> set s"
    and "\<forall>s \<in> set ys. s \<noteq> [] \<and> CHR ''/'' \<notin> set s"
    and "joinWith CHR ''/'' xs = joinWith CHR ''/'' ys"
  shows "xs = ys"
proof -
  have "xs = filter (\<lambda>s. s \<noteq> []) (splitOn CHR ''/'' (joinWith CHR ''/'' xs))"
    by (rule segments_of_join[OF assms(1), symmetric])
  also have "\<dots> = filter (\<lambda>s. s \<noteq> []) (splitOn CHR ''/'' (joinWith CHR ''/'' ys))"
    by (simp only: assms(3))
  also have "\<dots> = ys"
    by (rule segments_of_join[OF assms(2)])
  finally show ?thesis .
qed

lemma dropCommon_decomp:
  "\<exists>c. r = c @ fst (dropCommon r p) \<and> p = c @ snd (dropCommon r p)"
proof (induction r p rule: dropCommon.induct)
  case (1 a as b bs)
  show ?case
  proof (cases "a = b")
    case True
    with 1 obtain c where "as = c @ fst (dropCommon as bs)" "bs = c @ snd (dropCommon as bs)"
      by blast
    then have "a # as = (a # c) @ fst (dropCommon as bs)" "b # bs = (a # c) @ snd (dropCommon as bs)"
      using True by simp_all
    with True show ?thesis by (metis dropCommon.simps(1))
  next
    case False
    then show ?thesis by (intro exI[of _ "[]"]) simp
  qed
qed (auto intro: exI[of _ "[]"])

lemma ups_unique:
  assumes "map (\<lambda>_. ''..'') fs1 @ ts1 = map (\<lambda>_. ''..'') fs2 @ ts2"
    and "''..'' \<notin> set ts1" "''..'' \<notin> set ts2"
  shows "length fs1 = length fs2 \<and> ts1 = ts2"
  using assms
proof (induction fs1 arbitrary: fs2)
  case Nil
  show ?case
  proof (cases fs2)
    case Nil
    with Nil.prems show ?thesis by simp
  next
    case (Cons g gs)
    with Nil.prems(1) have "ts1 = ''..'' # map (\<lambda>_. ''..'') gs @ ts2" by simp
    with Nil.prems(2) show ?thesis by simp
  qed
next
  case (Cons f fs1)
  show ?case
  proof (cases fs2)
    case Nil
    with Cons.prems(1) have "ts2 = ''..'' # map (\<lambda>_. ''..'') fs1 @ ts1" by simp
    with Cons.prems(3) show ?thesis by simp
  next
    case (Cons g gs)
    with Cons.prems(1) have "map (\<lambda>_. ''..'') fs1 @ ts1 = map (\<lambda>_. ''..'') gs @ ts2" by simp
    from Cons.IH[OF this Cons.prems(2,3)] Cons show ?thesis by simp
  qed
qed

lemma plain_sublist:
  "list_all plainSegment (c @ ts) \<Longrightarrow> ''..'' \<notin> set ts \<and> (\<forall>s \<in> set ts. s \<noteq> [] \<and> CHR ''/'' \<notin> set s)"
  by (auto simp: list_all_iff plainSegment_def)

lemma resolveLoop_acc: "resolveLoop cwd ps (a @ b) = resolveLoop cwd ps a @ b"
proof (induction ps arbitrary: a)
  case Nil
  then show ?case by simp
next
  case (Cons p ps)
  from Cons[of "p @ CHR ''/'' # a"] Cons[of a] show ?case by simp
qed

lemma resolveLoop_slash: "\<exists>x. resolveLoop cwd ps [] = x @ ''/''"
proof (induction ps)
  case Nil
  then show ?case by simp
next
  case (Cons p ps)
  have "resolveLoop cwd ps (p @ ''/'') = resolveLoop cwd ps [] @ p @ ''/''"
    using resolveLoop_acc[of cwd ps "[]" "p @ ''/''"] by simp
  with Cons show ?case by auto
qed

lemma normalizeSegments_trailing: "normalizeSegments acc (xs @ [[]]) = normalizeSegments acc xs"
  by (simp add: normalizeSegments_append)

lemma segments_trailing_slash:
  "normalizeSegments acc (splitOn CHR ''/'' (x @ ''/'')) = normalizeSegments acc (splitOn CHR ''/'' x)"
  using splitOn_append[of "CHR ''/''" x "[]"] by (simp add: normalizeSegments_trailing)

lemma resolveSegments_resolve: "resolveSegments cwd [resolve cwd args] = resolveSegments cwd args"
proof -
  let ?P = "resolveSegments cwd args"
  have pl: "list_all plainSegment ?P" by (rule resolveSegments_plain)
  have "resolveSegments cwd [resolve cwd args]
          = normalizeSegments [] (splitOn CHR ''/'' ((CHR ''/'' # joinWith CHR ''/'' ?P) @ ''/''))"
    by (simp add: resolveSegments_def resolve_def startsWith_def)
  also have "\<dots> = normalizeSegments [] (splitOn CHR ''/'' (joinWith CHR ''/'' ?P))"
    by (simp only: segments_trailing_slash) simp
  also have "\<dots> = ?P"
  proof (cases "?P = []")
    case True
    then show ?thesis by simp
  next
    case False
    with pl have "splitOn CHR ''/'' (joinWith CHR ''/'' ?P) = ?P"
      by (intro splitOn_join) (auto simp: list_all_iff plainSegment_def)
    with pl show ?thesis by (simp add: normalizeSegments_plain)
  qed
  finally show ?thesis .
qed

text \<open>
  C3, as the claim states it, fails: \<open>/root/a\<close> and \<open>/root/a/\<close> are distinct
  absolute paths under the same root and have the same URL, since the encoder
  normalises the path first.
\<close>

theorem C3_unnormalised_paths_collide:
  "''/root/a'' \<noteq> ''/root/a/''
   \<and> fileToImportPath ''/cwd'' ''/root'' ''/root/a'' = fileToImportPath ''/cwd'' ''/root'' ''/root/a/''"
  by code_simp

text \<open>
  C3, amended: for a fixed root, two paths that are distinct after normalisation
  (after \<open>path.resolve\<close> against the root, the first step of the encoder) never have
  the same URL. The paths may lie under the root or outside it.
\<close>

theorem C3_injective:
  assumes "resolve cwd [root, p1] \<noteq> resolve cwd [root, p2]"
  shows "fileToImportPath cwd root p1 \<noteq> fileToImportPath cwd root p2"
proof
  assume eq: "fileToImportPath cwd root p1 = fileToImportPath cwd root p2"
  let ?R = "resolveSegments cwd [root]"
  let ?P1 = "resolveSegments cwd [root, p1]"
  let ?P2 = "resolveSegments cwd [root, p2]"
  let ?d1 = "dropCommon ?R ?P1"
  let ?d2 = "dropCommon ?R ?P2"
  from dropCommon_decomp[of ?R ?P1] obtain c1 where c1: "?R = c1 @ fst ?d1" "?P1 = c1 @ snd ?d1"
    by blast
  from dropCommon_decomp[of ?R ?P2] obtain c2 where c2: "?R = c2 @ fst ?d2" "?P2 = c2 @ snd ?d2"
    by blast
  have t1: "''..'' \<notin> set (snd ?d1) \<and> (\<forall>s \<in> set (snd ?d1). s \<noteq> [] \<and> CHR ''/'' \<notin> set s)"
    using resolveSegments_plain[of cwd "[root, p1]"] c1(2) plain_sublist[of c1 "snd ?d1"] by simp
  have t2: "''..'' \<notin> set (snd ?d2) \<and> (\<forall>s \<in> set (snd ?d2). s \<noteq> [] \<and> CHR ''/'' \<notin> set s)"
    using resolveSegments_plain[of cwd "[root, p2]"] c2(2) plain_sublist[of c2 "snd ?d2"] by simp
  let ?s1 = "map (\<lambda>_. ''..'') (fst ?d1) @ snd ?d1"
  let ?s2 = "map (\<lambda>_. ''..'') (fst ?d2) @ snd ?d2"
  have r1: "relative cwd root (resolve cwd [root, p1]) = joinWith CHR ''/'' ?s1"
    by (simp add: relative_def resolveSegments_resolve split: prod.splits)
  have r2: "relative cwd root (resolve cwd [root, p2]) = joinWith CHR ''/'' ?s2"
    by (simp add: relative_def resolveSegments_resolve split: prod.splits)
  from eq have "replaceDotDot (joinWith CHR ''/'' ?s1) = replaceDotDot (joinWith CHR ''/'' ?s2)"
    by (simp add: fileToImportPath_def Let_def r1 r2)
  then have "joinWith CHR ''/'' ?s1 = joinWith CHR ''/'' ?s2"
    by (rule replaceDotDot_inj)
  moreover have "\<forall>s \<in> set ?s1. s \<noteq> [] \<and> CHR ''/'' \<notin> set s" using t1 by auto
  moreover have "\<forall>s \<in> set ?s2. s \<noteq> [] \<and> CHR ''/'' \<notin> set s" using t2 by auto
  ultimately have "?s1 = ?s2" by (intro joinWith_inj)
  with t1 t2 have l: "length (fst ?d1) = length (fst ?d2)" and ts: "snd ?d1 = snd ?d2"
    using ups_unique[of "fst ?d1" "snd ?d1" "fst ?d2" "snd ?d2"] by simp_all
  from c1(1) c2(1) l have "c1 = c2"
    by (metis append_eq_append_conv)
  with c1(2) c2(2) ts have "?P1 = ?P2" by simp
  then have "resolve cwd [root, p1] = resolve cwd [root, p2]"
    by (simp add: resolve_def)
  with assms show False by simp
qed

theorem C3_injective_witness:
  "resolve ''/cwd'' [''/root'', ''/root/a..b''] \<noteq> resolve ''/cwd'' [''/root'', ''/root/a...b'']
   \<and> fileToImportPath ''/cwd'' ''/root'' ''/root/a..b''
       \<noteq> fileToImportPath ''/cwd'' ''/root'' ''/root/a...b''"
proof -
  have h: "resolve ''/cwd'' [''/root'', ''/root/a..b''] \<noteq> resolve ''/cwd'' [''/root'', ''/root/a...b'']"
    by code_simp
  from C3_injective [OF h] h show ?thesis by simp
qed

section \<open>The path codec: decoding an encoded path\<close>

lemma decodeFrom_plain: "CHR ''%'' \<notin> set s \<Longrightarrow> decodeFrom s = Inr s"
  by (induction s) auto

lemma cleanUrl_plain:
  assumes "CHR ''?'' \<notin> set s" "CHR ''#'' \<notin> set s"
  shows "cleanUrl s = s"
proof -
  have a: "takeWhile (\<lambda>c. c \<noteq> CHR ''#'') s = s"
    using assms(2) by (auto simp: takeWhile_eq_all_conv)
  have b: "takeWhile (\<lambda>c. c \<noteq> CHR ''?'') s = s"
    using assms(1) by (auto simp: takeWhile_eq_all_conv)
  show ?thesis unfolding cleanUrl_def by (simp only: a b)
qed

lemma resolveSegments_root_then:
  assumes "\<not> startsWith r ''/''"
  shows "resolveSegments cwd [root, r]
           = normalizeSegments (rev (resolveSegments cwd [root])) (splitOn CHR ''/'' r)"
proof -
  obtain x where x: "resolveLoop cwd [root] [] = x @ ''/''"
    using resolveLoop_slash by blast
  have R: "resolveSegments cwd [root] = normalizeSegments [] (splitOn CHR ''/'' x)"
    by (simp add: resolveSegments_def x segments_trailing_slash del: resolveLoop.simps)
  show ?thesis
  proof (cases "r = []")
    case True
    have "resolveLoop cwd [r, root] [] = resolveLoop cwd [root] []"
      using True by simp
    then have "resolveSegments cwd [root, r] = resolveSegments cwd [root]"
      by (simp add: resolveSegments_def del: resolveLoop.simps)
    with True show ?thesis by simp
  next
    case False
    have "resolveLoop cwd [r, root] [] = resolveLoop cwd [root] (r @ ''/'')"
      using False assms by simp
    also have "\<dots> = x @ CHR ''/'' # (r @ ''/'')"
      using resolveLoop_acc[of cwd "[root]" "[]" "r @ ''/''"] x by simp
    finally have "resolveSegments cwd [root, r]
        = normalizeSegments [] (splitOn CHR ''/'' x @ splitOn CHR ''/'' (r @ ''/''))"
      by (simp add: resolveSegments_def splitOn_append del: resolveLoop.simps)
    also have "\<dots> = normalizeSegments (rev (resolveSegments cwd [root])) (splitOn CHR ''/'' (r @ ''/''))"
      by (simp add: normalizeSegments_append R)
    finally show ?thesis by (simp add: segments_trailing_slash)
  qed
qed

lemma resolveSegments_absolute:
  "startsWith p ''/'' \<Longrightarrow> resolveSegments cwd [root, p] = resolveSegments cwd [p]"
  by (cases p) (simp_all add: resolveSegments_def startsWith_def)

lemma replaceEncoding_plain: "\<not> includesStr s dotdotEncoding \<Longrightarrow> replaceEncoding s = s"
  by (induction s rule: replaceEncoding.induct) (auto simp: dotdotEncoding_def startsWith_def)

lemma replaceDotDot_chars: "set (replaceDotDot t) \<subseteq> set t \<union> {CHR ''.''}"
  by (induction t rule: replaceDotDot.induct) (auto simp: dotdotEncoding_def)

lemma replaceEncoding_chars: "set (replaceEncoding t) \<subseteq> set t"
  by (induction t rule: replaceEncoding.induct) auto

lemma replaceDotDot_empty: "(replaceDotDot s = []) = (s = [])"
  by (cases s rule: replaceDotDot.cases) (auto simp: dotdotEncoding_def)

lemma replaceEncoding_empty: "(replaceEncoding s = []) = (s = [])"
  by (cases s rule: replaceEncoding.cases) auto

lemma replaceDotDot_plain:
  assumes "plainSegment s \<or> s = ''..''"
  shows "plainSegment (replaceDotDot s)"
proof -
  have "replaceDotDot s \<noteq> ''.''"
  proof
    assume "replaceDotDot s = ''.''"
    then have "replaceEncoding (replaceDotDot s) = ''.''" by simp
    then have "s = ''.''" by (simp add: replace_roundtrip)
    with assms show False by (auto simp: plainSegment_def)
  qed
  moreover have "CHR ''/'' \<notin> set (replaceDotDot s)"
    using assms replaceDotDot_chars[of s] by (auto simp: plainSegment_def)
  moreover have "replaceDotDot s \<noteq> []"
    using assms by (auto simp: replaceDotDot_empty plainSegment_def)
  ultimately show ?thesis
    by (simp add: plainSegment_def replaceDotDot_not_dotdot)
qed

lemma joinWith_not_absolute:
  assumes "\<forall>s \<in> set segs. s \<noteq> [] \<and> CHR ''/'' \<notin> set s"
  shows "\<not> startsWith (joinWith CHR ''/'' segs) ''/''"
proof (cases segs)
  case Nil
  then show ?thesis by (simp add: startsWith_def)
next
  case (Cons s ss)
  with assms obtain c cs where "s = c # cs" "c \<noteq> CHR ''/''"
    by (cases s) auto
  with Cons show ?thesis by (cases ss) (simp_all add: startsWith_def)
qed


lemma normalizeSegments_ups:
  "normalizeSegments acc (map (\<lambda>_. ''..'') fs @ ys) = normalizeSegments (drop (length fs) acc) ys"
proof (induction fs arbitrary: acc)
  case Nil
  then show ?case by simp
next
  case (Cons f fs)
  then show ?case by (cases acc) simp_all
qed

lemma dropCommon_prefix: "prefix r p \<Longrightarrow> dropCommon r p = ([], drop (length r) p)"
proof (induction r arbitrary: p)
  case Nil
  then show ?case by simp
next
  case (Cons a as)
  then obtain bs where "p = a # bs" "prefix as bs"
    by (cases p) auto
  with Cons.IH[of bs] show ?case by simp
qed

lemma splitOn_chars: "seg \<in> set (splitOn d s) \<Longrightarrow> set seg \<subseteq> set s"
proof (induction s arbitrary: seg)
  case Nil
  then show ?case by simp
next
  case (Cons c cs)
  obtain a rest where sp: "splitOn d cs = a # rest"
    using splitOn_nonempty[of d cs] by (cases "splitOn d cs") auto
  have ih: "set t \<subseteq> set cs" if "t = a \<or> t \<in> set rest" for t
    using Cons.IH[of t] that sp by auto
  show ?case
  proof (cases "c = d")
    case True
    with Cons.prems sp ih show ?thesis by auto
  next
    case False
    with Cons.prems sp have "seg = c # a \<or> seg \<in> set rest" by simp
    then show ?thesis
    proof
      assume "seg = c # a"
      with ih[of a] show ?thesis by auto
    next
      assume "seg \<in> set rest"
      with ih[of seg] show ?thesis by auto
    qed
  qed
qed

lemma normalizeSegments_subset: "set (normalizeSegments acc xs) \<subseteq> set acc \<union> set xs"
proof (induction acc xs rule: normalizeSegments.induct)
  case (1 acc)
  then show ?case by simp
next
  case (2 acc s ss)
  then show ?case by (cases acc) (auto split: if_splits)
qed

lemma joinWith_chars: "set (joinWith d segs) \<subseteq> insert d (\<Union> (set ` set segs))"
  by (induction d segs rule: joinWith.induct) auto


lemma relative_resolved:
  "relative cwd root (resolve cwd [root, p])
     = (case dropCommon (resolveSegments cwd [root]) (resolveSegments cwd [root, p]) of
          (fs, ts) \<Rightarrow> joinWith CHR ''/'' (map (\<lambda>_. ''..'') fs @ ts))"
  by (simp add: relative_def resolveSegments_resolve)

lemma relative_segments:
  "relative cwd root (resolve cwd [root, p])
     = joinWith CHR ''/''
         (map (\<lambda>_. ''..'')
            (fst (dropCommon (resolveSegments cwd [root]) (resolveSegments cwd [root, p])))
          @ snd (dropCommon (resolveSegments cwd [root]) (resolveSegments cwd [root, p])))"
  by (simp add: relative_resolved case_prod_beta)

lemma decoded_segments:
  "decoded cwd root p
     = CHR ''/'' # joinWith CHR ''/''
         (resolveSegments cwd [root]
          @ map (\<lambda>_. ''..'')
              (fst (dropCommon (resolveSegments cwd [root]) (resolveSegments cwd [root, p])))
          @ snd (dropCommon (resolveSegments cwd [root]) (resolveSegments cwd [root, p])))"
  by (simp add: decoded_def case_prod_beta)

lemma root_segments_unescaped:
  assumes "\<not> includesStr (resolve cwd [root]) dotdotEncoding"
  shows "map replaceEncoding (resolveSegments cwd [root]) = resolveSegments cwd [root]"
proof -
  let ?R = "resolveSegments cwd [root]"
  have pl: "\<forall>s \<in> set ?R. s \<noteq> [] \<and> CHR ''/'' \<notin> set s"
    using resolveSegments_plain[of cwd "[root]"] by (auto simp: list_all_iff plainSegment_def)
  then have pl': "\<forall>s \<in> set (map replaceEncoding ?R). s \<noteq> [] \<and> CHR ''/'' \<notin> set s"
    using replaceEncoding_chars by (auto simp: replaceEncoding_empty)
  have "replaceEncoding (resolve cwd [root]) = resolve cwd [root]"
    using assms by (rule replaceEncoding_plain)
  then have "joinWith CHR ''/'' (map replaceEncoding ?R) = joinWith CHR ''/'' ?R"
    by (simp add: resolve_def replaceEncoding_notdot replaceEncoding_join)
  with pl' pl show ?thesis by (intro joinWith_inj)
qed

lemma decode_encode:
  assumes "CHR ''%'' \<notin> set (fileToImportPath cwd root p)"
    and "CHR ''?'' \<notin> set (fileToImportPath cwd root p)"
    and "CHR ''#'' \<notin> set (fileToImportPath cwd root p)"
    and "\<not> includesStr (resolve cwd [root]) dotdotEncoding"
  shows "importPathToFile cwd root (fileToImportPath cwd root p) = Inr (decoded cwd root p)"
proof -
  let ?R = "resolveSegments cwd [root]"
  let ?P = "resolveSegments cwd [root, p]"
  let ?d = "dropCommon ?R ?P"
  let ?segs = "map (\<lambda>_. ''..'') (fst ?d) @ snd ?d"
  let ?rel = "joinWith CHR ''/'' ?segs"
  let ?u = "fileToImportPath cwd root p"
  from dropCommon_decomp[of ?R ?P] obtain c where c: "?R = c @ fst ?d" "?P = c @ snd ?d"
    by blast
  have ts: "list_all plainSegment (snd ?d)"
    using resolveSegments_plain[of cwd "[root, p]"] c(2) by (metis list_all_append)
  have segs: "\<forall>s \<in> set ?segs. plainSegment s \<or> s = ''..''"
    using ts by (auto simp: list_all_iff)
  have enc: "list_all plainSegment (map replaceDotDot ?segs)"
  proof -
    have "plainSegment (replaceDotDot s)" if "s \<in> set ?segs" for s
      using segs that by (intro replaceDotDot_plain) blast
    then show ?thesis unfolding list_all_iff set_map by blast
  qed
  have u: "?u = CHR ''/'' # joinWith CHR ''/'' (map replaceDotDot ?segs)"
    by (simp only: fileToImportPath_def Let_def relative_segments replaceDotDot_join)
  let ?r3 = "joinWith CHR ''/'' (map replaceDotDot ?segs)"
  have na: "\<not> startsWith ?r3 ''/''"
    using enc by (intro joinWith_not_absolute) (auto simp: list_all_iff plainSegment_def)
  have sp: "normalizeSegments (rev ?R) (splitOn CHR ''/'' ?r3) = ?R @ map replaceDotDot ?segs"
  proof (cases "?segs = []")
    case True
    then show ?thesis by simp
  next
    case False
    then have "splitOn CHR ''/'' ?r3 = map replaceDotDot ?segs"
      using enc by (intro splitOn_join) (auto simp: list_all_iff plainSegment_def)
    with enc show ?thesis by (simp add: normalizeSegments_plain)
  qed
  have r4: "resolve cwd [root, ?r3] = CHR ''/'' # joinWith CHR ''/'' (?R @ map replaceDotDot ?segs)"
    using resolveSegments_root_then[OF na, of cwd root] sp by (simp add: resolve_def)
  have e1: "replaceEncoding (CHR ''/'' # x) = CHR ''/'' # replaceEncoding x" for x
    by (simp add: replaceEncoding_notdot)
  have e2: "map replaceEncoding (map replaceDotDot xs) = xs" for xs
    by (induction xs) (simp_all add: replace_roundtrip)
  have "replaceEncoding (resolve cwd [root, ?r3])
          = CHR ''/'' # joinWith CHR ''/'' (map replaceEncoding (?R @ map replaceDotDot ?segs))"
    by (simp only: r4 e1 replaceEncoding_join)
  also have "map replaceEncoding (?R @ map replaceDotDot ?segs) = map replaceEncoding ?R @ ?segs"
    by (simp only: map_append e2)
  also have "map replaceEncoding ?R = ?R"
    using assms(4) by (rule root_segments_unescaped)
  finally have fin: "replaceEncoding (resolve cwd [root, ?r3]) = decoded cwd root p"
    by (simp only: decoded_segments)
  have d1: "decodeURIComponent ?u = Inr ?u"
    using assms(1) by (simp add: decodeURIComponent_def decodeFrom_plain)
  have d2: "cleanUrl ?u = ?u"
    using assms(2,3) by (rule cleanUrl_plain)
  have d3: "startsWith ?u ''/''" "drop 1 ?u = ?r3"
    by (simp_all add: u startsWith_def)
  show ?thesis
    by (simp only: importPathToFile_def d1 sum.case Let_def d2 d3 if_True fin)
qed


lemma decoded_under_root:
  assumes "prefix (resolveSegments cwd [root]) (resolveSegments cwd [root, p])"
  shows "decoded cwd root p = resolve cwd [root, p]"
proof -
  from assms obtain ts where "resolveSegments cwd [root, p] = resolveSegments cwd [root] @ ts"
    by (auto simp: prefix_def)
  then show ?thesis
    using dropCommon_prefix[OF assms] by (simp add: decoded_segments resolve_def)
qed

lemma decoded_parts:
  "\<exists>c fs ts. resolveSegments cwd [root] = c @ fs \<and> resolveSegments cwd [root, p] = c @ ts
     \<and> list_all plainSegment c \<and> list_all plainSegment fs \<and> list_all plainSegment ts
     \<and> decoded cwd root p
         = CHR ''/'' # joinWith CHR ''/'' (c @ fs @ map (\<lambda>_. ''..'') fs @ ts)"
proof -
  let ?R = "resolveSegments cwd [root]"
  let ?P = "resolveSegments cwd [root, p]"
  obtain fs ts where d: "dropCommon ?R ?P = (fs, ts)"
    by (cases "dropCommon ?R ?P") blast
  with dropCommon_decomp[of ?R ?P] obtain c where c: "?R = c @ fs" "?P = c @ ts"
    by auto
  have "list_all plainSegment (c @ fs)" "list_all plainSegment (c @ ts)"
    using resolveSegments_plain[of cwd "[root]"] resolveSegments_plain[of cwd "[root, p]"]
    by (simp_all only: c)
  then have pl: "list_all plainSegment c" "list_all plainSegment fs" "list_all plainSegment ts"
    by simp_all
  have "decoded cwd root p = CHR ''/'' # joinWith CHR ''/'' (?R @ map (\<lambda>_. ''..'') fs @ ts)"
    by (simp add: decoded_def d)
  then have "decoded cwd root p
               = CHR ''/'' # joinWith CHR ''/'' (c @ fs @ map (\<lambda>_. ''..'') fs @ ts)"
    by (simp only: c append_assoc)
  with c pl show ?thesis by blast
qed

lemma plain_or_up:
  assumes "list_all plainSegment c" "list_all plainSegment fs" "list_all plainSegment ts"
    and "s \<in> set (c @ fs @ map (\<lambda>_. ''..'') fs @ ts)"
  shows "s \<noteq> [] \<and> CHR ''/'' \<notin> set s"
proof -
  from assms(4) consider "s \<in> set c" | "s \<in> set fs" | "s = ''..''" | "s \<in> set ts"
    by auto
  then show ?thesis
  proof cases
    case 1
    with assms(1) show ?thesis by (simp add: list_all_iff plainSegment_def)
  next
    case 2
    with assms(2) show ?thesis by (simp add: list_all_iff plainSegment_def)
  next
    case 3
    then show ?thesis by simp
  next
    case 4
    with assms(3) show ?thesis by (simp add: list_all_iff plainSegment_def)
  qed
qed

lemma decoded_outside_root:
  assumes "decoded cwd root p = resolve cwd [root, p]"
  shows "prefix (resolveSegments cwd [root]) (resolveSegments cwd [root, p])"
proof -
  from decoded_parts[of cwd root p] obtain c fs ts where
    R: "resolveSegments cwd [root] = c @ fs" and P: "resolveSegments cwd [root, p] = c @ ts"
    and pl: "list_all plainSegment c" "list_all plainSegment fs" "list_all plainSegment ts"
    and dec: "decoded cwd root p = CHR ''/'' # joinWith CHR ''/'' (c @ fs @ map (\<lambda>_. ''..'') fs @ ts)"
    by blast
  let ?S = "c @ fs @ map (\<lambda>_. ''..'') fs @ ts"
  have S: "\<forall>s \<in> set ?S. s \<noteq> [] \<and> CHR ''/'' \<notin> set s"
    using plain_or_up[OF pl] by blast
  have P': "\<forall>s \<in> set (c @ ts). s \<noteq> [] \<and> CHR ''/'' \<notin> set s"
    using pl by (auto simp: list_all_iff plainSegment_def)
  have "resolve cwd [root, p] = CHR ''/'' # joinWith CHR ''/'' (c @ ts)"
    by (simp only: resolve_def P)
  with assms dec have "joinWith CHR ''/'' ?S = joinWith CHR ''/'' (c @ ts)"
    by simp
  with S P' have "?S = c @ ts" by (intro joinWith_inj)
  then have "fs @ map (\<lambda>_. ''..'') fs @ ts = ts" by simp
  then have "length (fs @ map (\<lambda>_. ''..'') fs @ ts) = length ts" by simp
  then have "fs = []" by simp
  with R P show ?thesis by (simp add: prefix_def)
qed

lemma resolve_decoded: "resolve cwd [decoded cwd root p] = resolve cwd [root, p]"
proof -
  from decoded_parts[of cwd root p] obtain c fs ts where
    R: "resolveSegments cwd [root] = c @ fs" and P: "resolveSegments cwd [root, p] = c @ ts"
    and pl: "list_all plainSegment c" "list_all plainSegment fs" "list_all plainSegment ts"
    and dec: "decoded cwd root p = CHR ''/'' # joinWith CHR ''/'' (c @ fs @ map (\<lambda>_. ''..'') fs @ ts)"
    by blast
  let ?S = "c @ fs @ map (\<lambda>_. ''..'') fs @ ts"
  have S: "\<forall>s \<in> set ?S. CHR ''/'' \<notin> set s"
    using plain_or_up[OF pl] by blast
  have "resolveSegments cwd [decoded cwd root p]
          = normalizeSegments [] (splitOn CHR ''/'' ((CHR ''/'' # joinWith CHR ''/'' ?S) @ ''/''))"
    by (simp add: resolveSegments_def dec startsWith_def)
  also have "\<dots> = normalizeSegments [] (splitOn CHR ''/'' (joinWith CHR ''/'' ?S))"
    by (simp only: segments_trailing_slash) simp
  also have "\<dots> = normalizeSegments [] ?S"
  proof (cases "?S = []")
    case True
    then show ?thesis by simp
  next
    case False
    with S have "splitOn CHR ''/'' (joinWith CHR ''/'' ?S) = ?S"
      by (intro splitOn_join)
    then show ?thesis by simp
  qed
  also have "\<dots> = normalizeSegments (rev (c @ fs)) (map (\<lambda>_. ''..'') fs @ ts)"
  proof -
    have "list_all plainSegment (c @ fs)" using pl by simp
    then have "normalizeSegments [] (c @ fs) = c @ fs"
      by (simp only: normalizeSegments_plain) simp
    then show ?thesis
      using normalizeSegments_append[of "[]" "c @ fs" "map (\<lambda>_. ''..'') fs @ ts"] by simp
  qed
  also have "\<dots> = normalizeSegments (rev c) ts"
    using normalizeSegments_ups[of "rev (c @ fs)" fs ts] by simp
  also have "\<dots> = c @ ts"
    using pl by (simp add: normalizeSegments_plain)
  finally have "resolveSegments cwd [decoded cwd root p] = resolveSegments cwd [root, p]"
    by (simp only: P)
  then show ?thesis by (simp add: resolve_def)
qed

lemma url_chars:
  assumes "startsWith p ''/''"
  shows "set (fileToImportPath cwd root p) \<subseteq> set p \<union> {CHR ''/'', CHR ''.''}"
proof -
  let ?R = "resolveSegments cwd [root]"
  let ?P = "resolveSegments cwd [root, p]"
  let ?d = "dropCommon ?R ?P"
  let ?segs = "map (\<lambda>_. ''..'') (fst ?d) @ snd ?d"
  from dropCommon_decomp[of ?R ?P] obtain c where c: "?R = c @ fst ?d" "?P = c @ snd ?d"
    by blast
  have "?P = normalizeSegments [] (splitOn CHR ''/'' (p @ ''/''))"
    using assms by (cases p) (simp_all add: resolveSegments_def startsWith_def)
  then have "set ?P \<subseteq> set (splitOn CHR ''/'' (p @ ''/''))"
    using normalizeSegments_subset[of "[]" "splitOn CHR ''/'' (p @ ''/'')"] by simp
  then have P: "set s \<subseteq> set p \<union> {CHR ''/''}" if "s \<in> set ?P" for s
    using that splitOn_chars[of s "CHR ''/''" "p @ ''/''"] by auto
  have segs: "set s \<subseteq> set p \<union> {CHR ''/'', CHR ''.''}" if "s \<in> set ?segs" for s
  proof -
    from that have "s = ''..'' \<or> s \<in> set (snd ?d)" by auto
    then show ?thesis
    proof
      assume "s = ''..''"
      then show ?thesis by simp
    next
      assume "s \<in> set (snd ?d)"
      then have "s \<in> set ?P" by (subst c(2)) simp
      with P[of s] show ?thesis by auto
    qed
  qed
  have "set (joinWith CHR ''/'' ?segs) \<subseteq> set p \<union> {CHR ''/'', CHR ''.''}"
    using joinWith_chars[of "CHR ''/''" ?segs] segs by blast
  then have "set (replaceDotDot (joinWith CHR ''/'' ?segs)) \<subseteq> set p \<union> {CHR ''/'', CHR ''.''}"
    using replaceDotDot_chars[of "joinWith CHR ''/'' ?segs"] by blast
  then show ?thesis
    by (simp add: fileToImportPath_def Let_def relative_segments)
qed

lemma normalizePath_resolve:
  assumes "startsWith p ''/''" "\<not> endsWith p ''/''"
  shows "normalizePath p = resolve cwd [p]"
proof -
  have "resolveSegments cwd [p] = normalizeSegments [] (splitOn CHR ''/'' (p @ ''/''))"
    using assms(1) by (cases p) (simp_all add: resolveSegments_def startsWith_def)
  then have "resolveSegments cwd [p] = normalizeSegments [] (splitOn CHR ''/'' p)"
    by (simp only: segments_trailing_slash)
  with assms(2) show ?thesis
    by (simp add: normalizePath_def resolve_def Let_def)
qed

text \<open>
  C2, as the claim states it, fails: for a path outside the root the decoder resolves
  the escaped URL against the root before it puts the \<open>..\<close> segments back, so
  the path it returns begins with the root and is not the normalised path.
\<close>

theorem C2_outside_root_not_normalised:
  "importPathToFile ''/cwd'' ''/root'' (fileToImportPath ''/cwd'' ''/root'' ''/other/x.js'')
     = Inr ''/root/../other/x.js''
   \<and> normalizePath ''/other/x.js'' = ''/other/x.js''"
  by code_simp

text \<open>
  C2, amended: for an absolute path \<open>p\<close> without the characters \<open>%\<close>, \<open>?\<close> and
  \<open>#\<close>, and a root whose resolved path contains no three-dot token, decoding the
  encoding of \<open>p\<close> succeeds; the path returned resolves to the normalised \<open>p\<close>
  (\<open>path.resolve(p)\<close>, which is \<open>path.normalize(p)\<close> when \<open>p\<close> has no trailing
  separator), and it is that very string exactly when \<open>p\<close> is the root or lies
  under it.
\<close>

theorem C2_roundtrip:
  assumes "startsWith p ''/''"
    and "CHR ''%'' \<notin> set p" "CHR ''?'' \<notin> set p" "CHR ''#'' \<notin> set p"
    and "\<not> includesStr (resolve cwd [root]) dotdotEncoding"
  shows "\<exists>f. importPathToFile cwd root (fileToImportPath cwd root p) = Inr f
           \<and> resolve cwd [f] = resolve cwd [p]
           \<and> ((f = resolve cwd [p])
                = prefix (resolveSegments cwd [root]) (resolveSegments cwd [p]))
           \<and> (\<not> endsWith p ''/'' \<longrightarrow> resolve cwd [p] = normalizePath p)"
proof -
  have a: "resolveSegments cwd [root, p] = resolveSegments cwd [p]"
    using assms(1) by (rule resolveSegments_absolute)
  then have b: "resolve cwd [root, p] = resolve cwd [p]"
    by (simp add: resolve_def)
  from url_chars[OF assms(1), of cwd root] assms(2-4)
  have "CHR ''%'' \<notin> set (fileToImportPath cwd root p)"
    "CHR ''?'' \<notin> set (fileToImportPath cwd root p)"
    "CHR ''#'' \<notin> set (fileToImportPath cwd root p)"
    by auto
  then have "importPathToFile cwd root (fileToImportPath cwd root p) = Inr (decoded cwd root p)"
    using assms(5) by (rule decode_encode)
  moreover have "resolve cwd [decoded cwd root p] = resolve cwd [p]"
    using resolve_decoded[of cwd root p] b by simp
  moreover have "(decoded cwd root p = resolve cwd [p])
      = prefix (resolveSegments cwd [root]) (resolveSegments cwd [p])"
    using decoded_under_root[of cwd root p] decoded_outside_root[of cwd root p] a b by auto
  moreover have "\<not> endsWith p ''/'' \<longrightarrow> resolve cwd [p] = normalizePath p"
    using normalizePath_resolve[OF assms(1), of cwd] by simp
  ultimately show ?thesis by blast
qed

theorem C2_roundtrip_witness:
  "startsWith ''/root/src/a..b.js'' ''/''
   \<and> CHR ''%'' \<notin> set ''/root/src/a..b.js''
   \<and> CHR ''?'' \<notin> set ''/root/src/a..b.js''
   \<and> CHR ''#'' \<notin> set ''/root/src/a..b.js''
   \<and> \<not> includesStr (resolve ''/cwd'' [''/root'']) dotdotEncoding
   \<and> importPathToFile ''/cwd'' ''/root'' (fileToImportPath ''/cwd'' ''/root'' ''/root/src/a..b.js'')
       = Inr (normalizePath ''/root/src/a..b.js'')"
proof -
  have h1: "startsWith ''/root/src/a..b.js'' ''/''"
    by (simp add: startsWith_def)
  have h2: "CHR ''%'' \<notin> set ''/root/src/a..b.js''" "CHR ''?'' \<notin> set ''/root/src/a..b.js''"
    "CHR ''#'' \<notin> set ''/root/src/a..b.js''"
    by simp_all
  have h3: "\<not> includesStr (resolve ''/cwd'' [''/root'']) dotdotEncoding"
    by code_simp
  have u: "prefix (resolveSegments ''/cwd'' [''/root''])
             (resolveSegments ''/cwd'' [''/root/src/a..b.js''])"
    by code_simp
  have n: "resolve ''/cwd'' [''/root/src/a..b.js''] = normalizePath ''/root/src/a..b.js''"
    by code_simp
  from C2_roundtrip [OF h1 h2 h3] u n h1 h2 h3 show ?thesis
    by auto
qed


end
